theory Spec2Isabelle
  imports Main
begin

section \<open>Strings\<close>

text \<open>
  Python strings are modelled as \<open>string\<close>, one \<open>char\<close> per code point, over the ASCII
  range. \<open>isspace\<close> holds of the ASCII code points that \<open>str.strip()\<close> removes:
  TAB, LF, VT, FF, CR, FS, GS, RS, US and the blank.
\<close>

definition isspace :: "char \<Rightarrow> bool" where
  "isspace c = (let n = (of_char c :: nat) in (9 \<le> n \<and> n \<le> 13) \<or> (28 \<le> n \<and> n \<le> 32))"

definition strip :: "string \<Rightarrow> string" where
  "strip s = rev (dropWhile isspace (rev (dropWhile isspace s)))"

definition upper_char :: "char \<Rightarrow> char" where
  "upper_char c =
     (let n = (of_char c :: nat) in if 97 \<le> n \<and> n \<le> 122 then char_of (n - 32) else c)"

definition upper :: "string \<Rightarrow> string" where
  "upper s = map upper_char s"

definition islower :: "char \<Rightarrow> bool" where
  "islower c = (let n = (of_char c :: nat) in 97 \<le> n \<and> n \<le> 122)"

text \<open>\<open>quoted q s\<close> is \<open>s.startswith(q) and s.endswith(q)\<close> for a one-character \<open>q\<close>.\<close>

definition quoted :: "char \<Rightarrow> string \<Rightarrow> bool" where
  "quoted q s = (case s of [] \<Rightarrow> False | c # _ \<Rightarrow> c = q \<and> last s = q)"

text \<open>
  \<open>_clean\<close> (app.py, lines 11 to 15). The argument is \<open>None\<close> when the request field is
  absent; \<open>s or ""\<close> turns that, and the empty string, into the empty string.
  \<open>s[1:-1]\<close> is \<open>butlast (tl s)\<close>, also on a one-character string, where it is empty.
\<close>

definition clean :: "string option \<Rightarrow> string" where
  "clean s0 =
     (let s = strip (case s0 of None \<Rightarrow> [] | Some t \<Rightarrow> t)
      in if quoted (CHR 0x22) s \<or> quoted (CHR 0x27) s then strip (butlast (tl s)) else s)"

subsection \<open>Decimal literals: Python's \<open>int(str)\<close>\<close>

definition isdigit :: "char \<Rightarrow> bool" where
  "isdigit c = (let n = (of_char c :: nat) in 48 \<le> n \<and> n \<le> 57)"

definition digit_val :: "char \<Rightarrow> int" where
  "digit_val c = int (of_char c) - 48"

text \<open>
  Digits with single underscores between them; \<open>prev\<close> tells whether the character just
  read was a digit, so that a leading, trailing or doubled underscore is refused.
\<close>

fun py_digits :: "int \<Rightarrow> bool \<Rightarrow> string \<Rightarrow> int option" where
  "py_digits acc prev [] = (if prev then Some acc else None)"
| "py_digits acc prev (c # cs) =
     (if isdigit c then py_digits (10 * acc + digit_val c) True cs
      else if c = CHR ''_'' \<and> prev then py_digits acc False cs
      else None)"

text \<open>
  The blanks that \<open>int()\<close> skips around an ASCII literal are those of C's \<open>isspace\<close>:
  TAB, LF, VT, FF, CR and the blank, and not FS, GS, RS, US.
\<close>

definition c_isspace :: "char \<Rightarrow> bool" where
  "c_isspace c = (let n = (of_char c :: nat) in (9 \<le> n \<and> n \<le> 13) \<or> n = 32)"

definition int_strip :: "string \<Rightarrow> string" where
  "int_strip s = rev (dropWhile c_isspace (rev (dropWhile c_isspace s)))"

text \<open>The interpreter's default limit on the number of digits of a decimal literal.\<close>

definition max_str_digits :: nat where
  "max_str_digits = 4300"

text \<open>
  \<open>int(s)\<close> in base ten on ASCII text; \<open>None\<close> stands for the \<open>ValueError\<close> it raises,
  which it also does when the literal has more than \<open>max_str_digits\<close> digits.
\<close>

definition py_int :: "string \<Rightarrow> int option" where
  "py_int s =
     (case int_strip s of
        [] \<Rightarrow> None
      | c # cs \<Rightarrow>
          let body = (if c = CHR ''-'' \<or> c = CHR ''+'' then cs else c # cs)
          in if max_str_digits < length (filter isdigit body) then None
             else if c = CHR ''-'' then map_option uminus (py_digits 0 False body)
             else py_digits 0 False body)"

section \<open>Data model\<close>

text \<open>
  Timestamps are naive \<open>datetime\<close> values, counted in microseconds since
  \<open>datetime.min\<close>. What a \<open>TIMESTAMP\<close> column holds is a text: \<open>TsDatetime t\<close> stands for a
  text that the driver's converter for that column type reads as the time \<open>t\<close>, \<open>TsText s\<close>
  for a text \<open>s\<close> that the converter refuses.
\<close>

datatype stored_ts = TsDatetime int | TsText string

text \<open>
  What \<open>datetime.fromisoformat\<close> returns: a naive value, or an aware one (the text had a
  UTC offset), which cannot be compared with the naive \<open>now\<close>.
\<close>

datatype py_datetime = Naive int | Aware int

datatype py_error = TypeError | ValueError | IntegrityError | OverflowError

record license =
  lic_id :: int
  lic_key :: string
  created_at :: int
  expires_at :: "stored_ts option"
  max_activations :: int
  revoked :: int
  lic_notes :: "string option"

record activation =
  act_id :: int
  license_id :: int
  machine_id :: string
  activated_at :: int
  last_seen :: int

text \<open>
  The two tables, rows in insertion order, and the two \<open>AUTOINCREMENT\<close> counters
  (the largest id ever given out in each table).
\<close>

record db =
  licenses :: "license list"
  activations :: "activation list"
  lic_seq :: int
  act_seq :: int

definition init_db :: db where
  "init_db = \<lparr>licenses = [], activations = [], lic_seq = 0, act_seq = 0\<rparr>"

section \<open>Store access\<close>

text \<open>
  The connection is opened with \<open>detect_types = PARSE_DECLTYPES\<close> (line 30), so each value
  of a column declared \<open>TIMESTAMP\<close> goes through the driver's converter as its row is
  fetched. The converter returns a \<open>datetime\<close> or raises \<open>ValueError\<close>; it never hands
  the text over.
\<close>

definition convert_row :: "license \<Rightarrow> py_error + license" where
  "convert_row l = (case expires_at l of Some (TsText s) \<Rightarrow> Inl ValueError | _ \<Rightarrow> Inr l)"

text \<open>
  \<open>SELECT * FROM licenses WHERE lic_key = ?\<close> with \<open>fetchone()\<close>: the comparison is exact,
  and the row found is converted.
\<close>

definition get_by_key :: "db \<Rightarrow> string \<Rightarrow> py_error + license option" where
  "get_by_key d k =
     (case find (\<lambda>l. lic_key l = k) (licenses d) of
        None \<Rightarrow> Inr None
      | Some l \<Rightarrow> (case convert_row l of Inl e \<Rightarrow> Inl e | Inr l' \<Rightarrow> Inr (Some l')))"

text \<open>\<open>SELECT COUNT(*) FROM activations WHERE license_id = ?\<close>\<close>

definition count_activations :: "db \<Rightarrow> int \<Rightarrow> int" where
  "count_activations d lid = int (length (filter (\<lambda>a. license_id a = lid) (activations d)))"

text \<open>\<open>SELECT * FROM activations WHERE license_id = ? AND machine_id = ?\<close> with \<open>fetchone()\<close>\<close>

definition get_activation :: "db \<Rightarrow> int \<Rightarrow> string \<Rightarrow> activation option" where
  "get_activation d lid mid =
     find (\<lambda>a. license_id a = lid \<and> machine_id a = mid) (activations d)"

text \<open>\<open>UPDATE activations SET last_seen = ? WHERE id = ?\<close>\<close>

definition touch_activation :: "db \<Rightarrow> int \<Rightarrow> int \<Rightarrow> db" where
  "touch_activation d aid now =
     d\<lparr>activations :=
         map (\<lambda>a. if act_id a = aid then a\<lparr>last_seen := now\<rparr> else a) (activations d)\<rparr>"

text \<open>
  \<open>INSERT INTO activations(license_id, machine_id, activated_at, last_seen)\<close>: the
  constraint \<open>UNIQUE(license_id, machine_id)\<close> makes the statement raise
  \<open>sqlite3.IntegrityError\<close> when the pair is already there.
\<close>

definition record_activation :: "db \<Rightarrow> int \<Rightarrow> string \<Rightarrow> int \<Rightarrow> py_error + db" where
  "record_activation d lid mid now =
     (if list_ex (\<lambda>a. license_id a = lid \<and> machine_id a = mid) (activations d)
      then Inl IntegrityError
      else Inr (d\<lparr>activations := activations d @
                     [\<lparr>act_id = act_seq d + 1, license_id = lid, machine_id = mid,
                       activated_at = now, last_seen = now\<rparr>],
                   act_seq := act_seq d + 1\<rparr>))"

section \<open>Key generator\<close>

definition alphabet :: string where
  "alphabet = ''ABCDEFGHIJKLMNOPQRSTUVWXYZ0123456789''"

text \<open>
  \<open>secrets.choice(seq)\<close> is \<open>seq[randbelow(len(seq))]\<close>. The random source is a stream
  \<open>rnd\<close> of draws; the \<open>k\<close>-th draw is reduced below the length of the sequence.
\<close>

definition choice :: "(nat \<Rightarrow> nat) \<Rightarrow> nat \<Rightarrow> string \<Rightarrow> char" where
  "choice rnd k seq = seq ! (rnd k mod length seq)"

text \<open>\<open>sep.join(parts)\<close>\<close>

fun join :: "string \<Rightarrow> string list \<Rightarrow> string" where
  "join sep [] = []"
| "join sep [p] = p"
| "join sep (p # q # ps) = p @ sep @ join sep (q # ps)"

text \<open>
  One group, \<open>"".join(secrets.choice(alphabet) for _ in range(group_len))\<close>; group \<open>g\<close>
  uses the draws from \<open>g * group_len\<close> onwards.
\<close>

definition random_group :: "(nat \<Rightarrow> nat) \<Rightarrow> nat \<Rightarrow> nat \<Rightarrow> string" where
  "random_group rnd group_len g = map (\<lambda>j. choice rnd (g * group_len + j) alphabet) [0..<group_len]"

text \<open>\<open>generate_key\<close> (lines 183 to 188).\<close>

definition generate_key_with :: "string \<Rightarrow> nat \<Rightarrow> nat \<Rightarrow> (nat \<Rightarrow> nat) \<Rightarrow> string" where
  "generate_key_with prefix groups group_len rnd =
     (let parts = map (random_group rnd group_len) [0..<groups]
      in prefix @ ''-'' @ join ''-'' parts)"

text \<open>The call \<open>generate_key()\<close> with the default arguments.\<close>

definition generate_key :: "(nat \<Rightarrow> nat) \<Rightarrow> string" where
  "generate_key rnd = generate_key_with ''FLUX'' 4 5 rnd"

section \<open>Admin operations\<close>

text \<open>\<open>parse_days\<close> (lines 190 to 197): the bare \<open>except\<close> turns a failed \<open>int()\<close> into \<open>None\<close>.\<close>

definition parse_days :: "string \<Rightarrow> int option" where
  "parse_days days_str =
     (case py_int days_str of
        None \<Rightarrow> None
      | Some d \<Rightarrow> if d \<le> 0 then None else Some d)"

text \<open>\<open>max(1, int(max_activations))\<close> inside \<open>try\<close>, with 1 on any exception (lines 207 to 210).\<close>

definition coerce_max_activations :: "string \<Rightarrow> int" where
  "coerce_max_activations s = (case py_int s of None \<Rightarrow> 1 | Some n \<Rightarrow> max 1 n)"

text \<open>
  The largest \<open>datetime\<close>, 9999-12-31 23:59:59.999999, in microseconds since
  \<open>datetime.min\<close>; \<open>timedelta\<close> takes at most 999999999 days; an SQLite \<open>INTEGER\<close> is a
  signed 64-bit number. Beyond each of them Python raises \<open>OverflowError\<close>.
\<close>

definition datetime_max :: int where
  "datetime_max = 3652059 * 86400000000 - 1"

definition day_us :: int where
  "day_us = 86400000000"

datatype create_response = Unauthorized | Created string

text \<open>
  \<open>api_create_key\<close> (lines 200 to 220). The form fields are \<open>None\<close> when absent. The
  \<open>INSERT\<close> raises \<open>IntegrityError\<close> when \<open>lic_key\<close> is already in the table
  (\<open>lic_key TEXT UNIQUE\<close>); an exception leaves the database as it was.
\<close>

definition api_create_key ::
  "bool \<Rightarrow> (nat \<Rightarrow> nat) \<Rightarrow> db \<Rightarrow> string option \<Rightarrow> string option \<Rightarrow> string option \<Rightarrow> int
     \<Rightarrow> (py_error + create_response) \<times> db" where
  "api_create_key logged_in rnd d days_field max_field notes_field now =
     (if \<not> logged_in then (Inr Unauthorized, d)
      else
        let days = parse_days (case days_field of None \<Rightarrow> [] | Some s \<Rightarrow> s);
            max_act = coerce_max_activations
                        (clean (case max_field of None \<Rightarrow> Some ''1'' | Some s \<Rightarrow> Some s));
            nts = clean notes_field;
            key = generate_key rnd
        in case days of
             Some n \<Rightarrow>
               if 999999999 < n \<or> datetime_max < now + n * day_us then (Inl OverflowError, d)
               else if 2 ^ 63 \<le> max_act then (Inl OverflowError, d)
               else if list_ex (\<lambda>l. lic_key l = key) (licenses d) then (Inl IntegrityError, d)
               else (Inr (Created key),
                     d\<lparr>licenses := licenses d @
                          [\<lparr>lic_id = lic_seq d + 1, lic_key = key, created_at = now,
                            expires_at = Some (TsDatetime (now + n * day_us)),
                            max_activations = max_act, revoked = 0, lic_notes = Some nts\<rparr>],
                        lic_seq := lic_seq d + 1\<rparr>)
           | None \<Rightarrow>
               if 2 ^ 63 \<le> max_act then (Inl OverflowError, d)
               else if list_ex (\<lambda>l. lic_key l = key) (licenses d) then (Inl IntegrityError, d)
               else (Inr (Created key),
                     d\<lparr>licenses := licenses d @
                          [\<lparr>lic_id = lic_seq d + 1, lic_key = key, created_at = now,
                            expires_at = None,
                            max_activations = max_act, revoked = 0, lic_notes = Some nts\<rparr>],
                        lic_seq := lic_seq d + 1\<rparr>))"

text \<open>\<open>api_revoke\<close> (lines 222 to 229), for a logged-in admin.\<close>

definition api_revoke :: "db \<Rightarrow> int \<Rightarrow> db" where
  "api_revoke d lid =
     d\<lparr>licenses := map (\<lambda>l. if lic_id l = lid then l\<lparr>revoked := 1\<rparr> else l) (licenses d)\<rparr>"

section \<open>Validation\<close>

datatype verdict =
    MissingKey
  | MissingMachineId
  | NotFound
  | Revoked
  | Expired
  | ActivationLimit
  | Success string "stored_ts option" int "string option"

text \<open>The HTTP status that goes with each verdict.\<close>

fun http_status :: "verdict \<Rightarrow> nat" where
  "http_status MissingKey = 400"
| "http_status MissingMachineId = 400"
| "http_status NotFound = 404"
| "http_status Revoked = 403"
| "http_status Expired = 403"
| "http_status ActivationLimit = 403"
| "http_status (Success k e r n) = 200"

text \<open>
  Lines 273 to 281: \<open>Inr True\<close> when the license counts as expired, \<open>Inr False\<close> when
  validation goes on. The branch for a text is the one under \<open>isinstance(expires_at, str)\<close>:
  \<open>fromisoformat\<close> is the library parser, \<open>None\<close> when it raises; comparing the naive
  \<open>now\<close> with an aware value raises \<open>TypeError\<close>, outside the \<open>try\<close>. A row that
  \<open>get_by_key\<close> returns never holds a text.
\<close>

definition check_expiry ::
  "(string \<Rightarrow> py_datetime option) \<Rightarrow> license \<Rightarrow> int \<Rightarrow> py_error + bool" where
  "check_expiry fromisoformat lic now =
     (case expires_at lic of
        None \<Rightarrow> Inr False
      | Some (TsDatetime e) \<Rightarrow> Inr (now > e)
      | Some (TsText s) \<Rightarrow>
          (case fromisoformat s of
             None \<Rightarrow> Inr True
           | Some (Naive e) \<Rightarrow> Inr (now > e)
           | Some (Aware e) \<Rightarrow> Inl TypeError))"

text \<open>Lines 298 to 305: the success response, computed on the database after the write.\<close>

definition success :: "db \<Rightarrow> license \<Rightarrow> string \<Rightarrow> verdict" where
  "success d lic k =
     Success k (expires_at lic)
       (max 0 (max_activations lic - count_activations d (lic_id lic))) (lic_notes lic)"

text \<open>
  Lines 283 to 296. \<open>env\<close> is what other connections commit between the \<open>SELECT\<close> for the
  existing activation and the \<open>INSERT\<close>; in a run with no concurrent writer it is the
  identity. An exception rolls this call's transaction back.
\<close>

definition bind_machine ::
  "(db \<Rightarrow> db) \<Rightarrow> db \<Rightarrow> license \<Rightarrow> string \<Rightarrow> string \<Rightarrow> int \<Rightarrow> (py_error + verdict) \<times> db" where
  "bind_machine env d lic k mid now =
     (let activation_count = count_activations d (lic_id lic)
      in case get_activation d (lic_id lic) mid of
           Some existing \<Rightarrow>
             (let d' = touch_activation d (act_id existing) now
              in (Inr (success d' lic k), d'))
         | None \<Rightarrow>
             if activation_count \<ge> max_activations lic then (Inr ActivationLimit, d)
             else (case record_activation (env d) (lic_id lic) mid now of
                     Inl e \<Rightarrow> (Inl e, env d)
                   | Inr d' \<Rightarrow> (Inr (success d' lic k), d')))"

text \<open>
  \<open>api_validate\<close> (lines 255 to 305) with the environment step made explicit. A request
  field is \<open>None\<close> when it is absent or null, and a string otherwise.
\<close>

definition api_validate_env ::
  "(string \<Rightarrow> py_datetime option) \<Rightarrow> (db \<Rightarrow> db) \<Rightarrow> db \<Rightarrow> string option \<Rightarrow> string option \<Rightarrow> int
     \<Rightarrow> (py_error + verdict) \<times> db" where
  "api_validate_env fromisoformat env d key_field machine_field now =
     (let k = upper (clean key_field);
          mid = clean machine_field
      in if k = [] then (Inr MissingKey, d)
         else if mid = [] then (Inr MissingMachineId, d)
         else case get_by_key d k of
                Inl e \<Rightarrow> (Inl e, d)
              | Inr None \<Rightarrow> (Inr NotFound, d)
              | Inr (Some lic) \<Rightarrow>
                  if revoked lic \<noteq> 0 then (Inr Revoked, d)
                  else (case check_expiry fromisoformat lic now of
                          Inl e \<Rightarrow> (Inl e, d)
                        | Inr True \<Rightarrow> (Inr Expired, d)
                        | Inr False \<Rightarrow> bind_machine env d lic k mid now))"

text \<open>\<open>api_validate\<close> as one request runs it when no other connection writes meanwhile.\<close>

definition api_validate ::
  "(string \<Rightarrow> py_datetime option) \<Rightarrow> db \<Rightarrow> string option \<Rightarrow> string option \<Rightarrow> int
     \<Rightarrow> (py_error + verdict) \<times> db" where
  "api_validate fromisoformat d key_field machine_field now =
     api_validate_env fromisoformat (\<lambda>x. x) d key_field machine_field now"

text \<open>A sequence of validation calls, each on the database the previous one left.\<close>

fun validate_all ::
  "(string \<Rightarrow> py_datetime option) \<Rightarrow> db \<Rightarrow> (string option \<times> string option \<times> int) list \<Rightarrow> db" where
  "validate_all f d [] = d"
| "validate_all f d ((k, m, now) # cs) = validate_all f (snd (api_validate f d k m now)) cs"

text \<open>The same request repeated at the given times; the responses and the final database.\<close>

fun validate_repeat ::
  "(string \<Rightarrow> py_datetime option) \<Rightarrow> db \<Rightarrow> string option \<Rightarrow> string option \<Rightarrow> int list
     \<Rightarrow> (py_error + verdict) list \<times> db" where
  "validate_repeat f d k m [] = ([], d)"
| "validate_repeat f d k m (now # ns) =
     (let r = api_validate f d k m now;
          rest = validate_repeat f (snd r) k m ns
      in (fst r # fst rest, snd rest))"

section \<open>Schema constraints and the activation bound\<close>

text \<open>
  What the schema and the counters guarantee of a stored database: primary keys and
  \<open>UNIQUE\<close> columns hold no duplicates, and no row carries an id beyond its counter.
\<close>

definition wf_db :: "db \<Rightarrow> bool" where
  "wf_db d =
     (distinct (map lic_id (licenses d)) \<and>
      distinct (map lic_key (licenses d)) \<and>
      distinct (map act_id (activations d)) \<and>
      distinct (map (\<lambda>a. (license_id a, machine_id a)) (activations d)) \<and>
      list_all (\<lambda>l. lic_id l \<le> lic_seq d) (licenses d) \<and>
      list_all (\<lambda>a. license_id a \<le> lic_seq d \<and> act_id a \<le> act_seq d) (activations d))"

text \<open>No license holds more activations than its \<open>max_activations\<close>.\<close>

definition within_limits :: "db \<Rightarrow> bool" where
  "within_limits d =
     list_all (\<lambda>l. count_activations d (lic_id l) \<le> max_activations l) (licenses d)"

section \<open>Concrete inputs\<close>

text \<open>A parser that refuses every text, a parser that reads one text, and a random source.\<close>

definition no_parse :: "string \<Rightarrow> py_datetime option" where
  "no_parse s = None"

definition one_parse :: "string \<Rightarrow> py_datetime option" where
  "one_parse s = (if s = ''2024-01-01'' then Some (Naive 100) else None)"

definition rnd0 :: "nat \<Rightarrow> nat" where
  "rnd0 k = 7 * k + 3"

text \<open>A license as \<open>api_create_key\<close> stores it, and databases holding it.\<close>

definition key_a :: string where
  "key_a = ''FLUX-AAAAA-BBBBB-CCCCC-DDDDD''"

definition lic_a :: license where
  "lic_a = \<lparr>lic_id = 1, lic_key = key_a, created_at = 1000, expires_at = None,
            max_activations = 1, revoked = 0, lic_notes = Some []\<rparr>"

definition db_a :: db where
  "db_a = \<lparr>licenses = [lic_a], activations = [], lic_seq = 1, act_seq = 0\<rparr>"

text \<open>\<open>db_a\<close> after machine \<open>m1\<close> was bound at time 2000.\<close>

definition db_a1 :: db where
  "db_a1 = db_a\<lparr>activations := [\<lparr>act_id = 1, license_id = 1, machine_id = ''m1'',
                                   activated_at = 2000, last_seen = 2000\<rparr>],
                 act_seq := 1\<rparr>"

definition db_expiring :: db where
  "db_expiring = db_a\<lparr>licenses := [lic_a\<lparr>expires_at := Some (TsDatetime 100)\<rparr>]\<rparr>"

definition db_garbled :: db where
  "db_garbled = db_a\<lparr>licenses := [lic_a\<lparr>expires_at := Some (TsText ''next tuesday'')\<rparr>]\<rparr>"

text \<open>A license of one slot holding two activations, as after its limit was lowered.\<close>

definition db_over :: db where
  "db_over = \<lparr>licenses = [\<lparr>lic_id = 1, lic_key = ''FLUX-A'', created_at = 1000, expires_at = None,
            max_activations = 1, revoked = 0, lic_notes = Some []\<rparr>],
     activations = [\<lparr>act_id = 1, license_id = 1, machine_id = ''m1'', activated_at = 2000, last_seen = 2000\<rparr>,
        \<lparr>act_id = 2, license_id = 1, machine_id = ''m2'', activated_at = 2500, last_seen = 2500\<rparr>],
     lic_seq = 1, act_seq = 2\<rparr>"

text \<open>Another request that binds machine \<open>m1\<close> to license 1 at time 1500 and commits.\<close>

definition racer :: "db \<Rightarrow> db" where
  "racer d = (case record_activation d 1 ''m1'' 1500 of Inl e \<Rightarrow> d | Inr d' \<Rightarrow> d')"

text \<open>The row that \<open>api_create_key\<close> inserts.\<close>

definition new_license ::
  "(nat \<Rightarrow> nat) \<Rightarrow> db \<Rightarrow> string option \<Rightarrow> string option \<Rightarrow> string option \<Rightarrow> int \<Rightarrow> license" where
  "new_license rnd d days_field max_field notes_field now =
     \<lparr>lic_id = lic_seq d + 1, lic_key = generate_key rnd, created_at = now,
      expires_at = map_option (\<lambda>n. TsDatetime (now + n * day_us))
                     (parse_days (case days_field of None \<Rightarrow> [] | Some s \<Rightarrow> s)),
      max_activations = coerce_max_activations
                          (clean (case max_field of None \<Rightarrow> Some ''1'' | Some s \<Rightarrow> Some s)),
      revoked = 0, lic_notes = Some (clean notes_field)\<rparr>"

text \<open>
  The inputs on which \<open>api_create_key\<close> raises \<open>OverflowError\<close>: a day count beyond what
  \<open>timedelta\<close> or \<open>datetime\<close> can hold, or a \<open>max_activations\<close> beyond an SQLite integer.
\<close>

definition create_overflow :: "string option \<Rightarrow> string option \<Rightarrow> int \<Rightarrow> bool" where
  "create_overflow days_field max_field now =
     ((case parse_days (case days_field of None \<Rightarrow> [] | Some s \<Rightarrow> s) of
         None \<Rightarrow> False
       | Some n \<Rightarrow> 999999999 < n \<or> datetime_max < now + n * day_us) \<or>
      2 ^ 63 \<le> coerce_max_activations
                  (clean (case max_field of None \<Rightarrow> Some ''1'' | Some s \<Rightarrow> Some s)))"

text \<open>A text on which \<open>int()\<close> raises, or which it reads as zero or a negative number.\<close>

definition not_positive_int :: "string \<Rightarrow> bool" where
  "not_positive_int s = (case py_int s of None \<Rightarrow> True | Some n \<Rightarrow> n \<le> 0)"

text \<open>The database after one license was created with expiry \<open>0\<close> days and \<open>max_activations\<close> -4.\<close>

definition key_trial :: string where
  "key_trial = ''FLUX-DKRY5-CJQX4-BIPW3-AHOV2''"

definition db_trial :: db where
  "db_trial = \<lparr>licenses = [\<lparr>lic_id = 1, lic_key = key_trial, created_at = 1000, expires_at = None,
                 max_activations = 1, revoked = 0, lic_notes = Some ''trial''\<rparr>],
     activations = [], lic_seq = 1, act_seq = 0\<rparr>"

text \<open>Two characters that \<open>upper\<close> maps to the same character: equal up to letter case.\<close>

definition same_upper :: "char \<Rightarrow> char \<Rightarrow> bool" where
  "same_upper c d = (upper_char c = upper_char d)"

text \<open>A license of two slots and no activation yet.\<close>

definition db_pair :: db where
  "db_pair = db_a\<lparr>licenses := [lic_a\<lparr>max_activations := 2\<rparr>]\<rparr>"

section \<open>Input checks\<close>

lemma upper_Nil_iff: "upper s = [] \<longleftrightarrow> s = []"
  by (simp add: upper_def)

lemma quoted_Nil: "\<not> quoted q []"
  by (simp add: quoted_def)

lemma strip_Nil: "strip [] = []"
  by (simp add: strip_def)

lemma clean_of_blank: "strip (case s0 of None \<Rightarrow> [] | Some t \<Rightarrow> t) = [] \<Longrightarrow> clean s0 = []"
  by (simp add: clean_def quoted_Nil)

lemma clean_None: "clean None = []"
  by (simp add: clean_of_blank strip_Nil)

lemma clean_Some_Nil: "clean (Some []) = []"
  by (simp add: clean_of_blank strip_Nil)

lemma validate_missing_key:
  "upper (clean key_field) = [] \<Longrightarrow>
   api_validate_env f env d key_field machine_field now = (Inr MissingKey, d)"
  by (simp add: api_validate_env_def)

lemma validate_missing_machine:
  "upper (clean key_field) \<noteq> [] \<Longrightarrow> clean machine_field = [] \<Longrightarrow>
   api_validate_env f env d key_field machine_field now = (Inr MissingMachineId, d)"
  by (simp add: api_validate_env_def)

lemma validate_present:
  "upper (clean key_field) \<noteq> [] \<Longrightarrow> clean machine_field \<noteq> [] \<Longrightarrow>
   api_validate_env f env d key_field machine_field now =
     (case get_by_key d (upper (clean key_field)) of
        Inl e \<Rightarrow> (Inl e, d)
      | Inr None \<Rightarrow> (Inr NotFound, d)
      | Inr (Some lic) \<Rightarrow>
          if revoked lic \<noteq> 0 then (Inr Revoked, d)
          else (case check_expiry f lic now of
                  Inl e \<Rightarrow> (Inl e, d)
                | Inr True \<Rightarrow> (Inr Expired, d)
                | Inr False \<Rightarrow>
                    bind_machine env d lic (upper (clean key_field)) (clean machine_field) now))"
  by (simp add: api_validate_env_def Let_def)

text \<open>
  Claim C6. A request whose key is empty after trimming (or absent) gets \<open>MissingKey\<close>; a
  request with a key and an empty (or absent, or blank) machine id gets
  \<open>MissingMachineId\<close>; the key is looked at first, so a request with neither gets
  \<open>MissingKey\<close>. In each case the database is returned as it was.
\<close>

theorem validate_missing_inputs:
  "(strip (case key_field of None \<Rightarrow> [] | Some t \<Rightarrow> t) = [] \<longrightarrow>
      api_validate f d key_field machine_field now = (Inr MissingKey, d)) \<and>
   (upper (clean key_field) \<noteq> [] \<and>
    (machine_field = None \<or> machine_field = Some [] \<or> clean machine_field = []) \<longrightarrow>
      api_validate f d key_field machine_field now = (Inr MissingMachineId, d)) \<and>
   (clean machine_field = [] \<longrightarrow>
      fst (api_validate f d key_field machine_field now) \<in> {Inr MissingKey, Inr MissingMachineId} \<and>
      snd (api_validate f d key_field machine_field now) = d)"
proof (intro conjI impI)
  assume "strip (case key_field of None \<Rightarrow> [] | Some t \<Rightarrow> t) = []"
  then have "upper (clean key_field) = []"
    by (simp add: clean_of_blank upper_Nil_iff)
  then show "api_validate f d key_field machine_field now = (Inr MissingKey, d)"
    by (simp add: api_validate_def validate_missing_key)
next
  assume a: "upper (clean key_field) \<noteq> [] \<and>
    (machine_field = None \<or> machine_field = Some [] \<or> clean machine_field = [])"
  then have "clean machine_field = []"
    using clean_None clean_Some_Nil by auto
  with a show "api_validate f d key_field machine_field now = (Inr MissingMachineId, d)"
    by (simp add: api_validate_def validate_missing_machine)
next
  assume m: "clean machine_field = []"
  show "fst (api_validate f d key_field machine_field now) \<in> {Inr MissingKey, Inr MissingMachineId}"
    using m by (cases "upper (clean key_field) = []")
      (simp_all add: api_validate_def validate_missing_key validate_missing_machine)
  show "snd (api_validate f d key_field machine_field now) = d"
    using m by (cases "upper (clean key_field) = []")
      (simp_all add: api_validate_def validate_missing_key validate_missing_machine)
qed

theorem validate_missing_inputs_witness:
  "api_validate no_parse init_db (Some ''   '') (Some ''m1'') 5 = (Inr MissingKey, init_db) \<and>
   api_validate no_parse init_db (Some ''flux-1'') (Some []) 5 = (Inr MissingMachineId, init_db) \<and>
   api_validate no_parse init_db None None 5 = (Inr MissingKey, init_db)"
proof -
  have s: "strip (case Some ''   '' of None \<Rightarrow> [] | Some t \<Rightarrow> t) = []"
    by code_simp
  have n: "strip (case (None :: string option) of None \<Rightarrow> [] | Some t \<Rightarrow> t) = []"
    by code_simp
  have k: "upper (clean (Some ''flux-1'')) \<noteq> []"
    by code_simp
  show ?thesis
    using validate_missing_inputs [of "Some ''   ''" no_parse init_db "Some ''m1''" 5]
      validate_missing_inputs [of "Some ''flux-1''" no_parse init_db "Some []" 5]
      validate_missing_inputs [of None no_parse init_db None 5] s n k
    by simp
qed

section \<open>Order of the checks\<close>

lemma check_expiry_None: "expires_at lic = None \<Longrightarrow> check_expiry f lic now = Inr False"
  by (simp add: check_expiry_def)

lemma bind_machine_not_early:
  "fst (bind_machine env d lic k mid now) \<notin>
     {Inr MissingKey, Inr MissingMachineId, Inr NotFound, Inr Revoked, Inr Expired}"
  by (simp add: bind_machine_def success_def Let_def split: option.splits sum.splits)

text \<open>
  Claim C2. For a request with a key and a machine id, the checks run in this order: a key
  (cleaned and upper-cased) that no license has gives \<open>NotFound\<close>; else a license with
  \<open>revoked\<close> set gives \<open>Revoked\<close>, whatever activations it has; else a license whose
  \<open>expires_at\<close> is a time before \<open>now\<close> gives \<open>Expired\<close>. A license with no \<open>expires_at\<close>
  never gives \<open>Expired\<close>. The activation step (a changed database, \<open>ActivationLimit\<close> or
  \<open>Success\<close>) is reached only for a license that is found, not revoked and not expired.
\<close>

theorem validate_order:
  assumes "upper (clean key_field) \<noteq> []" and "clean machine_field \<noteq> []"
  shows "(get_by_key d (upper (clean key_field)) = Inr None \<longrightarrow>
            api_validate f d key_field machine_field now = (Inr NotFound, d)) \<and>
         (get_by_key d (upper (clean key_field)) = Inr (Some lic) \<and> revoked lic \<noteq> 0 \<longrightarrow>
            api_validate f d key_field machine_field now = (Inr Revoked, d)) \<and>
         (get_by_key d (upper (clean key_field)) = Inr (Some lic) \<and> revoked lic = 0 \<and>
          (expires_at lic = Some (TsDatetime e) \<or>
           expires_at lic = Some (TsText s) \<and> f s = Some (Naive e)) \<and> now > e \<longrightarrow>
            api_validate f d key_field machine_field now = (Inr Expired, d)) \<and>
         (get_by_key d (upper (clean key_field)) = Inr (Some lic) \<and> expires_at lic = None \<longrightarrow>
            fst (api_validate f d key_field machine_field now) \<noteq> Inr Expired) \<and>
         (snd (api_validate f d key_field machine_field now) \<noteq> d \<or>
          fst (api_validate f d key_field machine_field now) = Inr ActivationLimit \<or>
          fst (api_validate f d key_field machine_field now) = Inr (Success k' e' r' n') \<longrightarrow>
            (\<exists>l. get_by_key d (upper (clean key_field)) = Inr (Some l) \<and> revoked l = 0 \<and>
                 check_expiry f l now = Inr False))"
proof -
  let ?k = "upper (clean key_field)"
  let ?r = "api_validate f d key_field machine_field now"
  note v = validate_present [OF assms, of f "\<lambda>x. x" d now, folded api_validate_def]
  have nf: "get_by_key d ?k = Inr None \<longrightarrow> ?r = (Inr NotFound, d)"
    by (simp add: v)
  have rv: "get_by_key d ?k = Inr (Some lic) \<and> revoked lic \<noteq> 0 \<longrightarrow> ?r = (Inr Revoked, d)"
    by (simp add: v)
  have ex: "get_by_key d ?k = Inr (Some lic) \<and> revoked lic = 0 \<and>
          (expires_at lic = Some (TsDatetime e) \<or>
           expires_at lic = Some (TsText s) \<and> f s = Some (Naive e)) \<and> now > e \<longrightarrow>
            ?r = (Inr Expired, d)"
    by (auto simp add: v check_expiry_def)
  have ne: "get_by_key d ?k = Inr (Some lic) \<and> expires_at lic = None \<longrightarrow> fst ?r \<noteq> Inr Expired"
    using bind_machine_not_early [of "\<lambda>x. x" d lic ?k "clean machine_field" now]
    by (auto simp add: v check_expiry_None)
  have late: "snd ?r \<noteq> d \<or> fst ?r = Inr ActivationLimit \<or> fst ?r = Inr (Success k' e' r' n') \<longrightarrow>
            (\<exists>l. get_by_key d ?k = Inr (Some l) \<and> revoked l = 0 \<and> check_expiry f l now = Inr False)"
    by (auto simp add: v split: option.splits sum.splits if_splits bool.splits)
  from nf rv ex ne late show ?thesis by blast
qed

theorem validate_order_witness:
  "api_validate no_parse db_a (Some ''flux-zzzzz'') (Some ''m1'') 5 = (Inr NotFound, db_a) \<and>
   api_validate no_parse (api_revoke db_a1 1) (Some key_a) (Some ''m1'') 5 =
     (Inr Revoked, api_revoke db_a1 1) \<and>
   api_validate no_parse db_expiring (Some key_a) (Some ''m1'') 101 = (Inr Expired, db_expiring) \<and>
   fst (api_validate no_parse db_a (Some key_a) (Some ''m1'') 101) \<noteq> Inr Expired"
proof -
  have k: "upper (clean (Some ''flux-zzzzz'')) \<noteq> []" "upper (clean (Some key_a)) \<noteq> []"
      "clean (Some ''m1'') \<noteq> []"
    by code_simp+
  have 1: "get_by_key db_a (upper (clean (Some ''flux-zzzzz''))) = Inr None"
    by code_simp
  have 2: "get_by_key (api_revoke db_a1 1) (upper (clean (Some key_a))) = Inr (Some (lic_a\<lparr>revoked := 1\<rparr>))"
      "revoked (lic_a\<lparr>revoked := 1\<rparr>) \<noteq> 0"
    by code_simp+
  have 3: "get_by_key db_expiring (upper (clean (Some key_a))) =
             Inr (Some (lic_a\<lparr>expires_at := Some (TsDatetime 100)\<rparr>))"
     "revoked (lic_a\<lparr>expires_at := Some (TsDatetime 100)\<rparr>) = 0"
     "expires_at (lic_a\<lparr>expires_at := Some (TsDatetime 100)\<rparr>) = Some (TsDatetime 100)"
    by code_simp+
  have 4: "get_by_key db_a (upper (clean (Some key_a))) = Inr (Some lic_a)" "expires_at lic_a = None"
    by code_simp+
  note a = validate_order [where key_field = "Some ''flux-zzzzz''" and machine_field = "Some ''m1''"
        and d = db_a and f = no_parse and now = 5, OF k(1) k(3), THEN conjunct1, rule_format, OF 1]
  note b = validate_order [where key_field = "Some key_a" and machine_field = "Some ''m1''"
        and d = "api_revoke db_a1 1" and lic = "lic_a\<lparr>revoked := 1\<rparr>" and f = no_parse
        and now = 5, OF k(2) k(3), THEN conjunct2, THEN conjunct1, rule_format, OF conjI, OF 2]
  note c = validate_order [where key_field = "Some key_a" and machine_field = "Some ''m1''"
        and d = db_expiring and lic = "lic_a\<lparr>expires_at := Some (TsDatetime 100)\<rparr>"
        and e = 100 and s = "[]" and f = no_parse and now = 101, OF k(2) k(3),
        THEN conjunct2, THEN conjunct2, THEN conjunct1, rule_format]
  note d = validate_order [where key_field = "Some key_a" and machine_field = "Some ''m1''"
        and d = db_a and lic = lic_a and f = no_parse and now = 101, OF k(2) k(3),
        THEN conjunct2, THEN conjunct2, THEN conjunct2, THEN conjunct1, rule_format, OF conjI, OF 4]
  have c': "api_validate no_parse db_expiring (Some key_a) (Some ''m1'') 101 = (Inr Expired, db_expiring)"
    by (rule c) (simp add: 3)
  from a b c' d show ?thesis by blast
qed

lemma get_by_key_text:
  assumes "find (\<lambda>l. lic_key l = k) (licenses d) = Some l" and "expires_at l = Some (TsText s)"
  shows "get_by_key d k = Inl ValueError"
  using assms by (simp add: get_by_key_def convert_row_def)

lemma validate_text_expiry:
  assumes "upper (clean key_field) \<noteq> []" and "clean machine_field \<noteq> []"
    and "find (\<lambda>l. lic_key l = upper (clean key_field)) (licenses d) = Some l"
    and "expires_at l = Some (TsText s)"
  shows "api_validate f d key_field machine_field now = (Inl ValueError, d)"
  by (simp add: validate_present [OF assms(1,2), of f "\<lambda>x. x" d now, folded api_validate_def]
      get_by_key_text [OF assms(3,4)])

text \<open>
  Claim C5 asks for the verdict \<open>Expired\<close> when the stored \<open>expires_at\<close> of the license is
  a text that cannot be read as a timestamp. Lines 275 to 279 are written to give it, but
  they are never reached: on the connection that \<open>get_db\<close> opens the converter of the
  \<open>TIMESTAMP\<close> column raises \<open>ValueError\<close> while the row is fetched on line 268. Here
  the license of \<open>db_garbled\<close> holds the text \<open>next tuesday\<close>, which the parser refuses as
  well; the request ends in that error, with no verdict, also when the license is revoked.
  The database is left as it was.
\<close>

theorem validate_unparseable_expiry_raises:
  "expires_at (hd (licenses db_garbled)) = Some (TsText ''next tuesday'') \<and>
   one_parse ''next tuesday'' = None \<and>
   get_by_key db_garbled key_a = Inl ValueError \<and>
   api_validate one_parse db_garbled (Some key_a) (Some ''m1'') 5 = (Inl ValueError, db_garbled) \<and>
   api_validate one_parse (api_revoke db_garbled 1) (Some key_a) (Some ''m1'') 5 =
     (Inl ValueError, api_revoke db_garbled 1)"
  by code_simp

section \<open>A machine that is already bound\<close>

lemma count_touch: "count_activations (touch_activation d aid now) lid = count_activations d lid"
proof -
  have "(\<lambda>a. license_id (if act_id a = aid then a\<lparr>last_seen := now\<rparr> else a) = lid) =
        (\<lambda>a. license_id a = lid)"
    by auto
  then show ?thesis
    by (simp add: count_activations_def touch_activation_def filter_map comp_def)
qed

lemma licenses_touch: "licenses (touch_activation d aid now) = licenses d"
  by (simp add: touch_activation_def)

lemma length_touch: "length (activations (touch_activation d aid now)) = length (activations d)"
  by (simp add: touch_activation_def)

lemma find_map_same:
  assumes "\<And>x. P (g x) = P x"
  shows "find P (map g xs) = map_option g (find P xs)"
  using assms by (induction xs) simp_all

lemma get_activation_touch:
  assumes "get_activation d lid mid = Some a"
  shows "get_activation (touch_activation d (act_id a) now) lid mid = Some (a\<lparr>last_seen := now\<rparr>)"
proof -
  let ?g = "\<lambda>x. if act_id x = act_id a then x\<lparr>last_seen := now\<rparr> else x"
  have "find (\<lambda>x. license_id x = lid \<and> machine_id x = mid) (map ?g (activations d)) =
        map_option ?g (find (\<lambda>x. license_id x = lid \<and> machine_id x = mid) (activations d))"
    by (rule find_map_same) simp
  with assms show ?thesis
    by (simp add: get_activation_def touch_activation_def)
qed

lemma success_touch: "success (touch_activation d aid now) lic k = success d lic k"
  by (simp add: success_def count_touch)

lemma bind_machine_existing:
  assumes "get_activation d (lic_id lic) mid = Some a"
  shows "bind_machine env d lic k mid now =
           (Inr (success d lic k), touch_activation d (act_id a) now)"
  using assms by (simp add: bind_machine_def Let_def success_touch)

lemma get_by_key_touch: "get_by_key (touch_activation d aid now) k = get_by_key d k"
  by (simp add: get_by_key_def licenses_touch)

lemma validate_existing:
  assumes "upper (clean key_field) \<noteq> []" and "clean machine_field \<noteq> []"
    and "get_by_key d (upper (clean key_field)) = Inr (Some lic)" and "revoked lic = 0"
    and "check_expiry f lic now = Inr False"
    and "get_activation d (lic_id lic) (clean machine_field) = Some a"
  shows "api_validate f d key_field machine_field now =
           (Inr (success d lic (upper (clean key_field))), touch_activation d (act_id a) now)"
  using assms(3-6)
  by (simp add: validate_present [OF assms(1,2), of f "\<lambda>x. x" d now, folded api_validate_def]
      bind_machine_existing)

text \<open>
  Claim C4. Let the key resolve to a license that is not revoked and passes the expiry
  check at each of the times \<open>nows\<close>, and let the machine have an activation on it. Then
  repeating the request at those times gives \<open>Success\<close> every time, with the same
  \<open>remaining_activations = max(0, max_activations - count)\<close>, whatever the count is
  compared with \<open>max_activations\<close>; no activation count changes, no row is added, and the
  machine's row ends with \<open>last_seen\<close> equal to the time of the last call.
\<close>

theorem validate_bound_machine:
  assumes "upper (clean key_field) \<noteq> []" and "clean machine_field \<noteq> []"
    and "get_by_key d (upper (clean key_field)) = Inr (Some lic)" and "revoked lic = 0"
    and "get_activation d (lic_id lic) (clean machine_field) = Some a"
    and "list_all (\<lambda>now. check_expiry f lic now = Inr False) nows"
  shows "fst (validate_repeat f d key_field machine_field nows) =
           replicate (length nows)
             (Inr (Success (upper (clean key_field)) (expires_at lic)
                     (max 0 (max_activations lic - count_activations d (lic_id lic)))
                     (lic_notes lic))) \<and>
         count_activations (snd (validate_repeat f d key_field machine_field nows)) lid =
           count_activations d lid \<and>
         length (activations (snd (validate_repeat f d key_field machine_field nows))) =
           length (activations d) \<and>
         licenses (snd (validate_repeat f d key_field machine_field nows)) = licenses d \<and>
         get_activation (snd (validate_repeat f d key_field machine_field nows)) (lic_id lic)
             (clean machine_field) =
           Some (a\<lparr>last_seen := last (last_seen a # nows)\<rparr>)"
  using assms(3,5,6)
proof (induction nows arbitrary: d a)
  case Nil
  then show ?case by simp
next
  case (Cons now ns)
  let ?d1 = "touch_activation d (act_id a) now"
  let ?a1 = "a\<lparr>last_seen := now\<rparr>"
  have e: "check_expiry f lic now = Inr False"
    and es: "list_all (\<lambda>now. check_expiry f lic now = Inr False) ns"
    using Cons.prems(3) by simp_all
  have v: "api_validate f d key_field machine_field now =
             (Inr (success d lic (upper (clean key_field))), ?d1)"
    by (rule validate_existing [OF assms(1,2) Cons.prems(1) assms(4) e Cons.prems(2)])
  have g1: "get_by_key ?d1 (upper (clean key_field)) = Inr (Some lic)"
    using Cons.prems(1) by (simp add: get_by_key_touch)
  have a1: "get_activation ?d1 (lic_id lic) (clean machine_field) = Some ?a1"
    by (rule get_activation_touch [OF Cons.prems(2)])
  note ih = Cons.IH [OF g1 a1 es]
  have l: "?a1\<lparr>last_seen := last (last_seen ?a1 # ns)\<rparr> =
           a\<lparr>last_seen := last (last_seen a # now # ns)\<rparr>"
    by simp
  have r: "validate_repeat f d key_field machine_field (now # ns) =
             (Inr (success d lic (upper (clean key_field))) #
                fst (validate_repeat f ?d1 key_field machine_field ns),
              snd (validate_repeat f ?d1 key_field machine_field ns))"
    by (simp add: v Let_def)
  show ?case
    unfolding r using ih unfolding l
    by (simp add: count_touch length_touch licenses_touch success_def)
qed

theorem validate_bound_machine_witness:
  "fst (validate_repeat no_parse db_over (Some ''flux-a'') (Some ''m1'') [3000, 4000]) =
     [Inr (Success ''FLUX-A'' None 0 (Some [])), Inr (Success ''FLUX-A'' None 0 (Some []))] \<and>
   count_activations (snd (validate_repeat no_parse db_over (Some ''flux-a'') (Some ''m1'') [3000, 4000])) 1 = 2 \<and>
   map_option last_seen
     (get_activation (snd (validate_repeat no_parse db_over (Some ''flux-a'') (Some ''m1'') [3000, 4000])) 1 ''m1'') =
     Some 4000"
proof -
  let ?lic = "\<lparr>lic_id = 1, lic_key = ''FLUX-A'', created_at = 1000, expires_at = None,
            max_activations = 1, revoked = 0, lic_notes = Some []\<rparr>"
  let ?a = "\<lparr>act_id = 1, license_id = 1, machine_id = ''m1'', activated_at = 2000, last_seen = 2000\<rparr>"
  have k: "upper (clean (Some ''flux-a'')) \<noteq> []" "clean (Some ''m1'') \<noteq> []"
    by code_simp+
  have k': "upper (clean (Some ''flux-a'')) = ''FLUX-A''" "clean (Some ''m1'') = ''m1''"
    by code_simp+
  have g: "get_by_key db_over (upper (clean (Some ''flux-a''))) = Inr (Some ?lic)"
    by code_simp
  have r: "revoked ?lic = 0"
    by simp
  have a: "get_activation db_over (lic_id ?lic) (clean (Some ''m1'')) = Some ?a"
    by code_simp
  have e: "list_all (\<lambda>now. check_expiry no_parse ?lic now = Inr False) [3000, 4000]"
    by (simp add: check_expiry_def)
  have c: "count_activations db_over 1 = 2"
    by code_simp
  note t = validate_bound_machine [where key_field = "Some ''flux-a''" and machine_field = "Some ''m1''"
      and d = db_over and f = no_parse and lic = ?lic and a = ?a and nows = "[3000, 4000]" and lid = 1,
      OF k g r a e]
  show ?thesis
    using t by (simp add: k' c)
qed

section \<open>The activation bound\<close>

lemma get_activation_None_iff:
  "get_activation d lid mid = None \<longleftrightarrow>
   \<not> list_ex (\<lambda>a. license_id a = lid \<and> machine_id a = mid) (activations d)"
  by (auto simp add: get_activation_def find_None_iff list_ex_iff)

lemma record_activation_fresh:
  assumes "get_activation d lid mid = None"
  shows "record_activation d lid mid now =
     Inr (d\<lparr>activations := activations d @
                [\<lparr>act_id = act_seq d + 1, license_id = lid, machine_id = mid,
                  activated_at = now, last_seen = now\<rparr>],
             act_seq := act_seq d + 1\<rparr>)"
  using assms by (simp add: record_activation_def get_activation_None_iff)

lemma record_activation_count:
  assumes "record_activation d lid mid now = Inr d'"
  shows "count_activations d' lid' = count_activations d lid' + (if lid' = lid then 1 else 0)"
  using assms by (auto simp add: record_activation_def count_activations_def split: if_splits)

lemma record_activation_licenses:
  assumes "record_activation d lid mid now = Inr d'"
  shows "licenses d' = licenses d"
  using assms by (auto simp add: record_activation_def split: if_splits)

lemma bind_machine_new:
  assumes "get_activation d (lic_id lic) mid = None"
  shows "bind_machine (\<lambda>x. x) d lic k mid now =
     (if max_activations lic \<le> count_activations d (lic_id lic) then (Inr ActivationLimit, d)
      else (Inr (Success k (expires_at lic)
                  (max 0 (max_activations lic - (count_activations d (lic_id lic) + 1)))
                  (lic_notes lic)),
            d\<lparr>activations := activations d @
                [\<lparr>act_id = act_seq d + 1, license_id = lic_id lic, machine_id = mid,
                  activated_at = now, last_seen = now\<rparr>],
              act_seq := act_seq d + 1\<rparr>))"
proof -
  note r = record_activation_fresh [OF assms, of now]
  show ?thesis
    using assms by (simp add: bind_machine_def Let_def r success_def
        record_activation_count [OF r])
qed

lemma bind_machine_licenses: "licenses (snd (bind_machine (\<lambda>x. x) d lic k mid now)) = licenses d"
proof (cases "get_activation d (lic_id lic) mid")
  case None
  then show ?thesis by (simp add: bind_machine_new)
next
  case (Some a)
  then show ?thesis by (simp add: bind_machine_existing licenses_touch)
qed

lemma bind_machine_count:
  "count_activations (snd (bind_machine (\<lambda>x. x) d lic k mid now)) lid =
     (if get_activation d (lic_id lic) mid = None \<and>
         count_activations d (lic_id lic) < max_activations lic \<and> lid = lic_id lic
      then count_activations d lid + 1 else count_activations d lid)"
proof (cases "get_activation d (lic_id lic) mid")
  case None
  note r = record_activation_fresh [OF None, of now]
  show ?thesis
    using None by (simp add: bind_machine_new record_activation_count [OF r])
next
  case (Some a)
  then show ?thesis by (simp add: bind_machine_existing count_touch)
qed

lemma validate_licenses: "licenses (snd (api_validate f d key_field machine_field now)) = licenses d"
  by (simp add: api_validate_def api_validate_env_def Let_def bind_machine_licenses
      split: option.splits sum.splits bool.splits)

lemma validate_count_step:
  "count_activations (snd (api_validate f d key_field machine_field now)) lid =
     count_activations d lid \<or>
   count_activations (snd (api_validate f d key_field machine_field now)) lid =
     count_activations d lid + 1 \<and>
   (\<exists>lic. get_by_key d (upper (clean key_field)) = Inr (Some lic) \<and> lic_id lic = lid \<and>
          get_activation d lid (clean machine_field) = None \<and>
          count_activations d lid < max_activations lic)"
  by (simp add: api_validate_def api_validate_env_def Let_def bind_machine_count
      split: option.splits sum.splits bool.splits)

lemma get_by_key_Some:
  assumes "get_by_key d k = Inr (Some lic)"
  shows "lic \<in> set (licenses d) \<and> lic_key lic = k"
  using assms
  by (auto simp add: get_by_key_def convert_row_def find_Some_iff
      split: option.splits stored_ts.splits)

lemma validate_within_limits:
  assumes "distinct (map lic_id (licenses d))" and "within_limits d"
  shows "within_limits (snd (api_validate f d key_field machine_field now))"
proof -
  let ?d' = "snd (api_validate f d key_field machine_field now)"
  have "count_activations ?d' (lic_id l) \<le> max_activations l" if l: "l \<in> set (licenses d)" for l
  proof -
    have old: "count_activations d (lic_id l) \<le> max_activations l"
      using assms(2) l by (simp add: within_limits_def list_all_iff)
    from validate_count_step [of f d key_field machine_field now "lic_id l"]
    show ?thesis
    proof
      assume "count_activations ?d' (lic_id l) = count_activations d (lic_id l)"
      with old show ?thesis by simp
    next
      assume "count_activations ?d' (lic_id l) = count_activations d (lic_id l) + 1 \<and>
        (\<exists>lic. get_by_key d (upper (clean key_field)) = Inr (Some lic) \<and> lic_id lic = lic_id l \<and>
          get_activation d (lic_id l) (clean machine_field) = None \<and>
          count_activations d (lic_id l) < max_activations lic)"
      then obtain lic where c: "count_activations ?d' (lic_id l) = count_activations d (lic_id l) + 1"
        and g: "get_by_key d (upper (clean key_field)) = Inr (Some lic)"
        and i: "lic_id lic = lic_id l"
        and b: "count_activations d (lic_id l) < max_activations lic"
        by blast
      have "lic \<in> set (licenses d)"
        using get_by_key_Some [OF g] by simp
      with assms(1) l i have "lic = l"
        by (meson distinct_map inj_onD)
      with b c show ?thesis by simp
    qed
  qed
  then show ?thesis
    by (simp add: within_limits_def list_all_iff validate_licenses)
qed

lemma validate_all_licenses: "licenses (validate_all f d calls) = licenses d"
  by (induction calls arbitrary: d) (auto simp add: validate_licenses)

lemma validate_all_within_limits:
  assumes "distinct (map lic_id (licenses d))" and "within_limits d"
  shows "within_limits (validate_all f d calls)"
  using assms
proof (induction calls arbitrary: d)
  case Nil
  then show ?case by simp
next
  case (Cons c cs)
  obtain k m now where c: "c = (k, m, now)"
    by (cases c) auto
  let ?d' = "snd (api_validate f d k m now)"
  have "distinct (map lic_id (licenses ?d'))"
    using Cons.prems(1) by (simp add: validate_licenses)
  moreover have "within_limits ?d'"
    by (rule validate_within_limits [OF Cons.prems])
  ultimately show ?case
    using Cons.IH [of ?d'] by (simp add: c)
qed

text \<open>
  Claim C1. Start from a database with distinct license ids (the primary key) in which no
  license holds more activations than its \<open>max_activations\<close>. After any sequence of
  validation calls the same holds of every license, and the licenses are as they were. A
  single call changes an activation count only by adding one row, for the license the key
  resolves to, for a machine not yet bound to it, and only when that license's count is
  strictly below \<open>max_activations\<close>; a new machine that reaches the capacity check with the
  count at or above \<open>max_activations\<close> gets \<open>ActivationLimit\<close> and nothing is written.
\<close>

theorem activations_never_exceed_limit:
  assumes "distinct (map lic_id (licenses d))" and "within_limits d"
  shows "list_all (\<lambda>l. count_activations (validate_all f d calls) (lic_id l) \<le> max_activations l)
           (licenses (validate_all f d calls)) \<and>
         licenses (validate_all f d calls) = licenses d \<and>
         (count_activations (snd (api_validate f d key_field machine_field now)) lid \<noteq>
            count_activations d lid \<longrightarrow>
          count_activations (snd (api_validate f d key_field machine_field now)) lid =
            count_activations d lid + 1 \<and>
          (\<exists>lic. get_by_key d (upper (clean key_field)) = Inr (Some lic) \<and> lic_id lic = lid \<and>
                 get_activation d lid (clean machine_field) = None \<and>
                 count_activations d lid < max_activations lic)) \<and>
         (upper (clean key_field) \<noteq> [] \<and> clean machine_field \<noteq> [] \<and>
          get_by_key d (upper (clean key_field)) = Inr (Some lic) \<and> revoked lic = 0 \<and>
          check_expiry f lic now = Inr False \<and>
          get_activation d (lic_id lic) (clean machine_field) = None \<and>
          max_activations lic \<le> count_activations d (lic_id lic) \<longrightarrow>
          api_validate f d key_field machine_field now = (Inr ActivationLimit, d))"
proof -
  have 1: "list_all (\<lambda>l. count_activations (validate_all f d calls) (lic_id l) \<le> max_activations l)
           (licenses (validate_all f d calls))"
    using validate_all_within_limits [OF assms, of f calls] by (simp add: within_limits_def)
  have 2: "licenses (validate_all f d calls) = licenses d"
    by (rule validate_all_licenses)
  have 3: "count_activations (snd (api_validate f d key_field machine_field now)) lid \<noteq>
            count_activations d lid \<longrightarrow>
          count_activations (snd (api_validate f d key_field machine_field now)) lid =
            count_activations d lid + 1 \<and>
          (\<exists>lic. get_by_key d (upper (clean key_field)) = Inr (Some lic) \<and> lic_id lic = lid \<and>
                 get_activation d lid (clean machine_field) = None \<and>
                 count_activations d lid < max_activations lic)"
    using validate_count_step [of f d key_field machine_field now lid] by blast
  have 4: "upper (clean key_field) \<noteq> [] \<and> clean machine_field \<noteq> [] \<and>
          get_by_key d (upper (clean key_field)) = Inr (Some lic) \<and> revoked lic = 0 \<and>
          check_expiry f lic now = Inr False \<and>
          get_activation d (lic_id lic) (clean machine_field) = None \<and>
          max_activations lic \<le> count_activations d (lic_id lic) \<longrightarrow>
          api_validate f d key_field machine_field now = (Inr ActivationLimit, d)"
    by (simp add: api_validate_def api_validate_env_def Let_def bind_machine_new)
  from 1 2 3 4 show ?thesis by blast
qed

theorem activations_never_exceed_limit_witness:
  "distinct (map lic_id (licenses db_a)) \<and> within_limits db_a \<and>
   validate_all no_parse db_a [(Some key_a, Some ''m1'', 2000), (Some key_a, Some ''m2'', 3000)] = db_a1 \<and>
   list_all (\<lambda>l. count_activations db_a1 (lic_id l) \<le> max_activations l) (licenses db_a1) \<and>
   api_validate no_parse db_a1 (Some key_a) (Some ''m2'') 3000 = (Inr ActivationLimit, db_a1)"
proof -
  let ?calls = "[(Some key_a, Some ''m1'', 2000), (Some key_a, Some ''m2'', 3000)]"
  have h: "distinct (map lic_id (licenses db_a))" "within_limits db_a"
    by code_simp+
  have h1: "distinct (map lic_id (licenses db_a1))" "within_limits db_a1"
    by code_simp+
  have v: "validate_all no_parse db_a ?calls = db_a1"
    by code_simp
  have p: "upper (clean (Some key_a)) \<noteq> []" "clean (Some ''m2'') \<noteq> []"
      "get_by_key db_a1 (upper (clean (Some key_a))) = Inr (Some lic_a)" "revoked lic_a = 0"
      "check_expiry no_parse lic_a 3000 = Inr False"
      "get_activation db_a1 (lic_id lic_a) (clean (Some ''m2'')) = None"
      "max_activations lic_a \<le> count_activations db_a1 (lic_id lic_a)"
    by code_simp+
  note a = activations_never_exceed_limit [OF h, where f = no_parse and calls = ?calls,
      THEN conjunct1, unfolded v]
  note b = activations_never_exceed_limit [OF h1, where f = no_parse and key_field = "Some key_a"
      and machine_field = "Some ''m2''" and now = 3000 and lic = lic_a,
      THEN conjunct2, THEN conjunct2, THEN conjunct2, rule_format]
  have b': "api_validate no_parse db_a1 (Some key_a) (Some ''m2'') 3000 = (Inr ActivationLimit, db_a1)"
    by (rule b) (simp add: p)
  from h v a b' show ?thesis by blast
qed

section \<open>A colliding insert\<close>

lemma get_activation_Some_ex:
  assumes "get_activation d lid mid = Some a"
  shows "list_ex (\<lambda>a. license_id a = lid \<and> machine_id a = mid) (activations d)"
  using assms get_activation_None_iff [of d lid mid] by auto

lemma bind_machine_identity_no_error:
  "fst (bind_machine (\<lambda>x. x) d lic k mid now) \<noteq> Inl e"
proof (cases "get_activation d (lic_id lic) mid")
  case None
  then show ?thesis by (simp add: bind_machine_new)
next
  case (Some a)
  then show ?thesis by (simp add: bind_machine_existing)
qed

text \<open>
  Claim C3, as amended. When the lookup finds no activation for the pair and the count is
  below \<open>max_activations\<close>, but the pair exists by the time of the \<open>INSERT\<close> (another
  connection committed it in between), the \<open>INSERT\<close> raises \<open>IntegrityError\<close> and
  \<open>api_validate\<close> does not catch it: the request ends in that error, with no verdict, and
  the row of the other connection is left as it is, its \<open>last_seen\<close> not updated. With no
  write in between, the \<open>INSERT\<close> never raises.
\<close>

theorem validate_insert_collision:
  assumes "upper (clean key_field) \<noteq> []" and "clean machine_field \<noteq> []"
    and "get_by_key d (upper (clean key_field)) = Inr (Some lic)" and "revoked lic = 0"
    and "check_expiry f lic now = Inr False"
    and "get_activation d (lic_id lic) (clean machine_field) = None"
    and "count_activations d (lic_id lic) < max_activations lic"
    and "get_activation (env d) (lic_id lic) (clean machine_field) = Some a"
  shows "record_activation (env d) (lic_id lic) (clean machine_field) now = Inl IntegrityError \<and>
         api_validate_env f env d key_field machine_field now = (Inl IntegrityError, env d) \<and>
         get_activation (snd (api_validate_env f env d key_field machine_field now))
           (lic_id lic) (clean machine_field) = Some a \<and>
         fst (api_validate f d key_field machine_field now) \<noteq> Inl IntegrityError"
proof -
  have r: "record_activation (env d) (lic_id lic) (clean machine_field) now = Inl IntegrityError"
    using get_activation_Some_ex [OF assms(8)] by (simp add: record_activation_def)
  have b: "bind_machine env d lic (upper (clean key_field)) (clean machine_field) now =
             (Inl IntegrityError, env d)"
    using assms(6,7) by (simp add: bind_machine_def Let_def r)
  have v: "api_validate_env f env d key_field machine_field now = (Inl IntegrityError, env d)"
    using assms(3-5) by (simp add: validate_present [OF assms(1,2)] b)
  have s: "fst (api_validate f d key_field machine_field now) \<noteq> Inl IntegrityError"
    using assms(3-5) bind_machine_identity_no_error
    by (simp add: api_validate_def validate_present [OF assms(1,2)])
  from r v s assms(8) show ?thesis by simp
qed

theorem validate_insert_collision_witness:
  "api_validate_env no_parse racer db_a (Some key_a) (Some ''m1'') 2000 =
     (Inl IntegrityError, racer db_a)"
proof -
  let ?a = "\<lparr>act_id = 1, license_id = 1, machine_id = ''m1'', activated_at = 1500, last_seen = 1500\<rparr>"
  have p: "upper (clean (Some key_a)) \<noteq> []" "clean (Some ''m1'') \<noteq> []"
      "get_by_key db_a (upper (clean (Some key_a))) = Inr (Some lic_a)" "revoked lic_a = 0"
      "check_expiry no_parse lic_a 2000 = Inr False"
      "get_activation db_a (lic_id lic_a) (clean (Some ''m1'')) = None"
      "count_activations db_a (lic_id lic_a) < max_activations lic_a"
      "get_activation (racer db_a) (lic_id lic_a) (clean (Some ''m1'')) = Some ?a"
    by code_simp+
  show ?thesis
    using validate_insert_collision [where f = no_parse and env = racer and d = db_a
        and key_field = "Some key_a" and machine_field = "Some ''m1''" and now = 2000
        and lic = lic_a and a = ?a, OF p]
    by simp
qed

text \<open>
  The claim as first stated fails: here the lookup finds no row, the \<open>INSERT\<close> collides, and
  the request ends in the error instead of \<open>Success\<close>; \<open>last_seen\<close> stays 1500 and does not
  become 2000.
\<close>

theorem validate_insert_collision_counterexample:
  "get_activation db_a 1 ''m1'' = None \<and>
   record_activation (racer db_a) 1 ''m1'' 2000 = Inl IntegrityError \<and>
   fst (api_validate_env no_parse racer db_a (Some key_a) (Some ''m1'') 2000) = Inl IntegrityError \<and>
   map_option last_seen
     (get_activation (snd (api_validate_env no_parse racer db_a (Some key_a) (Some ''m1'') 2000))
        1 ''m1'') = Some 1500"
  by code_simp

section \<open>Generated keys\<close>

lemma generate_key_groups:
  "generate_key rnd =
     ''FLUX-'' @ random_group rnd 5 0 @ ''-'' @ random_group rnd 5 1 @ ''-'' @
     random_group rnd 5 2 @ ''-'' @ random_group rnd 5 3"
proof -
  have "[0..<4] = [0, 1, 2, 3::nat]"
    by (simp add: upt_rec)
  then show ?thesis
    by (simp add: generate_key_def generate_key_with_def)
qed

lemma length_alphabet: "length alphabet = 36"
  by (simp add: alphabet_def)

lemma choice_in_alphabet: "choice rnd k alphabet \<in> set alphabet"
  by (simp add: choice_def length_alphabet)

lemma length_random_group: "length (random_group rnd n g) = n"
  by (simp add: random_group_def)

lemma set_random_group: "set (random_group rnd n g) \<subseteq> set alphabet"
  by (auto simp add: random_group_def choice_in_alphabet)

lemma alphabet_chars:
  assumes "c \<in> set alphabet"
  shows "\<not> islower c" and "\<not> isspace c" and "c \<noteq> CHR 0x22" and "c \<noteq> CHR 0x27"
  using assms by (auto simp add: alphabet_def islower_def isspace_def)

lemma random_group_no_lower: "list_all (\<lambda>c. \<not> islower c) (random_group rnd n g)"
  using set_random_group [of rnd n g] alphabet_chars(1) by (auto simp add: list_all_iff)

lemma prefix_no_lower: "list_all (\<lambda>c. \<not> islower c) ''FLUX-''"
  by (simp add: islower_def)

lemma dash_no_lower: "list_all (\<lambda>c. \<not> islower c) ''-''"
  by (simp add: islower_def)

lemma generate_key_no_lower: "list_all (\<lambda>c. \<not> islower c) (generate_key rnd)"
  using prefix_no_lower dash_no_lower
  by (simp only: generate_key_groups list_all_append random_group_no_lower simp_thms)

text \<open>
  Claim C9. Every key that \<open>generate_key()\<close> returns is the prefix \<open>FLUX\<close>, then four groups
  of five characters, all parts joined by \<open>-\<close>; each group holds only upper-case letters
  and digits; the key has 28 characters and none of them is a lower-case letter.
\<close>

theorem generate_key_shape:
  "generate_key rnd =
     ''FLUX-'' @ random_group rnd 5 0 @ ''-'' @ random_group rnd 5 1 @ ''-'' @
     random_group rnd 5 2 @ ''-'' @ random_group rnd 5 3 \<and>
   length (random_group rnd 5 g) = 5 \<and>
   list_all (\<lambda>c. c \<in> set alphabet) (random_group rnd 5 g) \<and>
   list_all (\<lambda>c. \<not> islower c) (generate_key rnd) \<and>
   length (generate_key rnd) = 28"
proof -
  have "list_all (\<lambda>c. c \<in> set alphabet) (random_group rnd 5 g)"
    using set_random_group [of rnd 5 g] by (auto simp add: list_all_iff)
  moreover have "length (generate_key rnd) = 28"
    by (simp add: generate_key_groups length_random_group)
  ultimately show ?thesis
    using generate_key_groups [of rnd] generate_key_no_lower [of rnd]
    by (simp add: length_random_group)
qed

lemma upper_char_id: "\<not> islower c \<Longrightarrow> upper_char c = c"
  by (auto simp add: upper_char_def islower_def Let_def)

lemma upper_id: "list_all (\<lambda>c. \<not> islower c) s \<Longrightarrow> upper s = s"
  by (simp add: upper_def list_all_iff upper_char_id map_idI)

lemma strip_id:
  assumes "s \<noteq> []" and "\<not> isspace (hd s)" and "\<not> isspace (last s)"
  shows "strip s = s"
proof -
  have "dropWhile isspace s = s"
    using assms(2) by (simp add: dropWhile_eq_self_iff)
  moreover have "dropWhile isspace (rev s) = rev s"
    using assms(1,3) by (simp add: dropWhile_eq_self_iff hd_rev)
  ultimately show ?thesis
    by (simp add: strip_def)
qed

lemma clean_id:
  assumes "s \<noteq> []" and "\<not> isspace (hd s)" and "\<not> isspace (last s)"
    and "hd s \<noteq> CHR 0x22" and "hd s \<noteq> CHR 0x27"
  shows "clean (Some s) = s"
  using assms by (cases s) (simp_all add: clean_def strip_id quoted_def)

lemma generate_key_last: "last (generate_key rnd) \<in> set alphabet"
proof -
  have n: "random_group rnd 5 3 \<noteq> []"
    using length_random_group [of rnd 5 3] by auto
  then have "last (generate_key rnd) = last (random_group rnd 5 3)"
    by (simp add: generate_key_groups)
  also have "\<dots> \<in> set (random_group rnd 5 3)"
    using n by simp
  finally show ?thesis
    using set_random_group by blast
qed

lemma clean_generate_key: "clean (Some (generate_key rnd)) = generate_key rnd"
proof (rule clean_id)
  show "generate_key rnd \<noteq> []" and "\<not> isspace (hd (generate_key rnd))"
    and "hd (generate_key rnd) \<noteq> CHR 0x22" and "hd (generate_key rnd) \<noteq> CHR 0x27"
    by (simp_all add: generate_key_groups isspace_def)
  show "\<not> isspace (last (generate_key rnd))"
    using generate_key_last alphabet_chars(2) by blast
qed

lemma normalize_generate_key: "upper (clean (Some (generate_key rnd))) = generate_key rnd"
  by (simp add: clean_generate_key upper_id generate_key_no_lower)

section \<open>Creating licenses\<close>

subsection \<open>What \<open>int()\<close> refuses\<close>

lemma py_int_examples:
  "py_int [CHR 0x1F, CHR ''1'', CHR ''2'', CHR 0x1C] = None \<and>
   py_int [CHR 0x09, CHR ''1'', CHR ''2'', CHR 0x0A] = Some 12 \<and>
   py_int ''1_0'' = Some 10 \<and> py_int ''_1'' = None \<and> py_int ''- 5'' = None \<and>
   py_int '' -3 '' = Some (- 3)"
  by code_simp

lemma int_strip_id:
  assumes "s \<noteq> []" and "\<not> c_isspace (hd s)" and "\<not> c_isspace (last s)"
  shows "int_strip s = s"
proof -
  have "dropWhile c_isspace s = s"
    using assms(2) by (simp add: dropWhile_eq_self_iff)
  moreover have "dropWhile c_isspace (rev s) = rev s"
    using assms(1,3) by (simp add: dropWhile_eq_self_iff hd_rev)
  ultimately show ?thesis
    by (simp add: int_strip_def)
qed

lemma int_strip_replicate:
  assumes "\<not> c_isspace c"
  shows "int_strip (c # replicate n c) = c # replicate n c"
proof (rule int_strip_id)
  have "last (c # replicate n c) \<in> set (c # replicate n c)"
    by (rule last_in_set) simp
  then have "last (c # replicate n c) = c"
    by auto
  with assms show "\<not> c_isspace (last (c # replicate n c))"
    by simp
qed (use assms in simp_all)

lemma py_int_too_long:
  assumes "max_str_digits < n"
  shows "py_int (replicate n (CHR ''1'')) = None"
proof -
  obtain m where n: "n = Suc m"
    using assms by (cases n) auto
  have s: "\<not> c_isspace (CHR ''1'')" and d: "isdigit (CHR ''1'')"
    by (simp_all add: c_isspace_def isdigit_def)
  have f: "filter isdigit (replicate m (CHR ''1'')) = replicate m (CHR ''1'')"
    using d by simp
  show ?thesis
    using assms by (simp add: n py_int_def int_strip_replicate [OF s] Let_def d f)
qed

subsection \<open>The stored license\<close>

lemma create_ok:
  assumes "\<not> list_ex (\<lambda>l. lic_key l = generate_key rnd) (licenses d)"
    and "\<not> create_overflow days_field max_field now"
  shows "api_create_key True rnd d days_field max_field notes_field now =
           (Inr (Created (generate_key rnd)),
            d\<lparr>licenses := licenses d @ [new_license rnd d days_field max_field notes_field now],
              lic_seq := lic_seq d + 1\<rparr>)"
  using assms
  by (auto simp add: api_create_key_def create_overflow_def new_license_def Let_def
      split: option.splits)

lemma create_Created:
  assumes "api_create_key logged_in rnd d days_field max_field notes_field now = (Inr (Created key), d')"
  shows "key = generate_key rnd"
    and "\<not> list_ex (\<lambda>l. lic_key l = key) (licenses d)"
    and "d' = d\<lparr>licenses := licenses d @ [new_license rnd d days_field max_field notes_field now],
                lic_seq := lic_seq d + 1\<rparr>"
  using assms
  by (auto simp add: api_create_key_def new_license_def Let_def split: if_splits option.splits)

lemma find_snoc:
  assumes "\<not> list_ex P xs" and "P x"
  shows "find P (xs @ [x]) = Some x"
  using assms by (induction xs) simp_all

lemma convert_new_license:
  "convert_row (new_license rnd d days_field max_field notes_field now) =
     Inr (new_license rnd d days_field max_field notes_field now)"
  by (simp add: convert_row_def new_license_def split: option.splits)

lemma lookup_new_license:
  assumes "\<not> list_ex (\<lambda>l. lic_key l = generate_key rnd) (licenses d)"
  shows "get_by_key
           (d\<lparr>licenses := licenses d @ [new_license rnd d days_field max_field notes_field now],
              lic_seq := lic_seq d + 1\<rparr>) (generate_key rnd) =
         Inr (Some (new_license rnd d days_field max_field notes_field now))"
proof -
  have "lic_key (new_license rnd d days_field max_field notes_field now) = generate_key rnd"
    by (simp add: new_license_def)
  with assms show ?thesis
    by (simp add: get_by_key_def find_snoc convert_new_license)
qed

text \<open>
  Claim C8. When the generated key is not yet in the table and nothing overflows,
  \<open>api_create_key\<close> returns the generated key and appends one row holding it; the
  normalisation that \<open>api_validate\<close> applies (clean, then upper-case) leaves the key as it
  is, and the lookup with it on the resulting database returns that very row.
\<close>

theorem create_then_lookup:
  assumes "\<not> list_ex (\<lambda>l. lic_key l = generate_key rnd) (licenses d)"
    and "\<not> create_overflow days_field max_field now"
  shows "(let r = api_create_key True rnd d days_field max_field notes_field now;
              key = generate_key rnd;
              L = last (licenses (snd r))
          in fst r = Inr (Created key) \<and>
             upper (clean (Some key)) = key \<and>
             licenses (snd r) = licenses d @ [L] \<and>
             lic_key L = key \<and> lic_id L = lic_seq d + 1 \<and>
             get_by_key (snd r) (upper (clean (Some key))) = Inr (Some L))"
proof -
  let ?L = "new_license rnd d days_field max_field notes_field now"
  note c = create_ok [OF assms, of notes_field]
  have n: "upper (clean (Some (generate_key rnd))) = generate_key rnd"
    by (rule normalize_generate_key)
  have k: "lic_key ?L = generate_key rnd" and i: "lic_id ?L = lic_seq d + 1"
    by (simp_all add: new_license_def)
  note g = lookup_new_license [OF assms(1), of days_field max_field notes_field now]
  show ?thesis
    by (simp add: Let_def c n k i g)
qed

lemma coerce_max_activations_ge: "1 \<le> coerce_max_activations s"
  by (simp add: coerce_max_activations_def split: option.splits)

lemma not_positive_int_coerced:
  assumes "not_positive_int s"
  shows "parse_days s = None" and "coerce_max_activations s = 1"
  using assms
  by (auto simp add: not_positive_int_def parse_days_def coerce_max_activations_def
      split: option.splits)

lemma count_fresh:
  assumes "list_all (\<lambda>a. license_id a \<le> lic_seq d) (activations d)"
  shows "filter (\<lambda>a. license_id a = lic_seq d + 1) (activations d) = []"
  using assms by (auto simp add: list_all_iff filter_empty_conv)

lemma validate_new_license:
  assumes c: "\<not> list_ex (\<lambda>l. lic_key l = generate_key rnd) (licenses d)"
    and e: "parse_days (case days_field of None \<Rightarrow> [] | Some t \<Rightarrow> t) = None"
    and w: "wf_db d" and m: "clean machine_field \<noteq> []"
  shows "fst (api_validate f
                (d\<lparr>licenses := licenses d @ [new_license rnd d days_field max_field notes_field t0],
                   lic_seq := lic_seq d + 1\<rparr>)
                (Some (generate_key rnd)) machine_field now) =
           Inr (Success (generate_key rnd) None
                  (max_activations (new_license rnd d days_field max_field notes_field t0) - 1)
                  (lic_notes (new_license rnd d days_field max_field notes_field t0)))"
proof -
  let ?L = "new_license rnd d days_field max_field notes_field t0"
  let ?d' = "d\<lparr>licenses := licenses d @ [?L], lic_seq := lic_seq d + 1\<rparr>"
  let ?key = "generate_key rnd"
  have n: "upper (clean (Some ?key)) = ?key"
    by (rule normalize_generate_key)
  have k: "upper (clean (Some ?key)) \<noteq> []"
    unfolding n by (simp add: generate_key_groups)
  note g = lookup_new_license [OF c, of days_field max_field notes_field t0]
  have r: "revoked ?L = 0" and x: "expires_at ?L = None" and i: "lic_id ?L = lic_seq d + 1"
    by (simp_all add: new_license_def e)
  have b: "list_all (\<lambda>a. license_id a \<le> lic_seq d) (activations d)"
    using w by (auto simp add: wf_db_def list_all_iff)
  have cnt: "count_activations ?d' (lic_id ?L) = 0"
    by (simp add: count_activations_def i count_fresh [OF b])
  have ga: "get_activation ?d' (lic_id ?L) (clean machine_field) = None"
    using b by (auto simp add: get_activation_def i find_None_iff list_all_iff)
  have mx: "1 \<le> max_activations ?L"
    by (simp add: new_license_def coerce_max_activations_ge)
  show ?thesis
    using mx by (simp add: api_validate_def validate_present [OF k m] g r check_expiry_None [OF x]
        bind_machine_new [OF ga] cnt x n)
qed

text \<open>
  Claim C7. A text that \<open>int()\<close> refuses, or reads as zero or negative, becomes no day count
  and a \<open>max_activations\<close> of 1, and the coerced \<open>max_activations\<close> is always at least 1.
  For a logged-in admin and a generated key that is not yet in the table:
  with such a day count (and a \<open>max_activations\<close> that fits an SQLite integer)
  \<open>api_create_key\<close> stores a license with no \<open>expires_at\<close>, and on a database that respects
  the schema the first validation with the returned key, for any machine id and at any
  time, is \<open>Success\<close>; with such a \<open>max_activations\<close> (and a day count that does not overflow)
  it stores a license with \<open>max_activations\<close> 1. Every license it stores has
  \<open>max_activations\<close> at least 1.
\<close>

theorem create_coercions:
  assumes "\<not> list_ex (\<lambda>l. lic_key l = generate_key rnd) (licenses d)"
  shows "(not_positive_int s \<longrightarrow> parse_days s = None \<and> coerce_max_activations s = 1) \<and>
         1 \<le> coerce_max_activations s \<and>
         (let ds = (case days_field of None \<Rightarrow> [] | Some t \<Rightarrow> t);
              ms = clean (case max_field of None \<Rightarrow> Some ''1'' | Some m \<Rightarrow> Some m);
              r = api_create_key True rnd d days_field max_field notes_field t0;
              key = generate_key rnd;
              L = last (licenses (snd r))
          in (not_positive_int ds \<and> coerce_max_activations ms < 2 ^ 63 \<longrightarrow>
                fst r = Inr (Created key) \<and> licenses (snd r) = licenses d @ [L] \<and>
                lic_key L = key \<and> expires_at L = None \<and>
                (wf_db d \<and> clean machine_field \<noteq> [] \<longrightarrow>
                   fst (api_validate f (snd r) (Some key) machine_field now) =
                     Inr (Success key None (max_activations L - 1) (lic_notes L)))) \<and>
             (not_positive_int ms \<and> \<not> create_overflow days_field max_field t0 \<longrightarrow>
                fst r = Inr (Created key) \<and> licenses (snd r) = licenses d @ [L] \<and>
                lic_key L = key \<and> max_activations L = 1) \<and>
             (fst r = Inr (Created key) \<longrightarrow>
                licenses (snd r) = licenses d @ [L] \<and> 1 \<le> max_activations L))"
proof -
  let ?ds = "case days_field of None \<Rightarrow> [] | Some t \<Rightarrow> t"
  let ?ms = "clean (case max_field of None \<Rightarrow> Some ''1'' | Some m \<Rightarrow> Some m)"
  let ?r = "api_create_key True rnd d days_field max_field notes_field t0"
  let ?key = "generate_key rnd"
  let ?N = "new_license rnd d days_field max_field notes_field t0"
  let ?L = "last (licenses (snd ?r))"
  have 1: "not_positive_int s \<longrightarrow> parse_days s = None \<and> coerce_max_activations s = 1"
    using not_positive_int_coerced [of s] by simp
  have 2: "1 \<le> coerce_max_activations s"
    by (rule coerce_max_activations_ge)
  have f: "lic_key ?N = ?key" "max_activations ?N = coerce_max_activations ?ms"
    "expires_at ?N = map_option (\<lambda>n. TsDatetime (t0 + n * day_us)) (parse_days ?ds)"
    by (simp_all add: new_license_def)
  have ok: "fst ?r = Inr (Created ?key) \<and> licenses (snd ?r) = licenses d @ [?L] \<and> ?L = ?N \<and>
            snd ?r = d\<lparr>licenses := licenses d @ [?N], lic_seq := lic_seq d + 1\<rparr>"
    if "\<not> create_overflow days_field max_field t0"
    by (simp add: create_ok [OF assms that, of notes_field])
  have 3: "fst ?r = Inr (Created ?key) \<and> licenses (snd ?r) = licenses d @ [?L] \<and>
           lic_key ?L = ?key \<and> expires_at ?L = None \<and>
           (wf_db d \<and> clean machine_field \<noteq> [] \<longrightarrow>
              fst (api_validate f (snd ?r) (Some ?key) machine_field now) =
                Inr (Success ?key None (max_activations ?L - 1) (lic_notes ?L)))"
    if a: "not_positive_int ?ds" and b: "coerce_max_activations ?ms < 2 ^ 63"
  proof -
    note p = not_positive_int_coerced(1) [OF a]
    have o: "\<not> create_overflow days_field max_field t0"
      using b by (simp add: create_overflow_def p)
    note k = ok [OF o]
    have v: "fst (api_validate f (snd ?r) (Some ?key) machine_field now) =
                Inr (Success ?key None (max_activations ?L - 1) (lic_notes ?L))"
      if "wf_db d" and "clean machine_field \<noteq> []"
      using validate_new_license [OF assms p that, where max_field = max_field
          and notes_field = notes_field and ?t0.0 = t0 and f = f and now = now] k
      by simp
    from k v show ?thesis
      by (simp add: f p)
  qed
  have 4: "fst ?r = Inr (Created ?key) \<and> licenses (snd ?r) = licenses d @ [?L] \<and>
           lic_key ?L = ?key \<and> max_activations ?L = 1"
    if a: "not_positive_int ?ms" and o: "\<not> create_overflow days_field max_field t0"
    using ok [OF o] not_positive_int_coerced(2) [OF a] by (simp add: f)
  have 5: "licenses (snd ?r) = licenses d @ [?L] \<and> 1 \<le> max_activations ?L"
    if c: "fst ?r = Inr (Created key)" for key
  proof -
    have "?r = (Inr (Created key), snd ?r)"
      using c by (metis prod.collapse)
    note cr = create_Created [OF this]
    show ?thesis
      by (simp add: cr(3) f coerce_max_activations_ge)
  qed
  from 1 2 3 4 5 show ?thesis
    unfolding Let_def by blast
qed

lemma create_trial:
  "api_create_key True rnd0 init_db (Some ''0'') (Some ''-4'') (Some ''trial'') 1000 =
     (Inr (Created key_trial), db_trial)"
  by code_simp

theorem create_then_lookup_witness:
  "api_create_key True rnd0 init_db (Some ''0'') (Some ''-4'') (Some ''trial'') 1000 =
     (Inr (Created key_trial), db_trial) \<and>
   generate_key rnd0 = key_trial \<and>
   get_by_key db_trial (upper (clean (Some key_trial))) = Inr (Some (last (licenses db_trial)))"
proof -
  have h: "\<not> list_ex (\<lambda>l. lic_key l = generate_key rnd0) (licenses init_db)"
      "\<not> create_overflow (Some ''0'') (Some ''-4'') 1000"
    by code_simp+
  have g: "generate_key rnd0 = key_trial"
    by code_simp
  note t = create_then_lookup [OF h, of "Some ''trial''",
      unfolded Let_def create_trial g fst_conv snd_conv]
  from t create_trial g show ?thesis
    by blast
qed

theorem create_coercions_witness:
  "api_create_key True rnd0 init_db (Some ''0'') (Some ''-4'') (Some ''trial'') 1000 =
     (Inr (Created key_trial), db_trial) \<and>
   parse_days ''0'' = None \<and> parse_days ''abc'' = None \<and> coerce_max_activations ''-4'' = 1 \<and>
   expires_at (last (licenses db_trial)) = None \<and>
   max_activations (last (licenses db_trial)) = 1 \<and>
   fst (api_validate no_parse db_trial (Some key_trial) (Some ''m1'') 999999999999) =
     Inr (Success key_trial None 0 (Some ''trial''))"
proof -
  have h: "\<not> list_ex (\<lambda>l. lic_key l = generate_key rnd0) (licenses init_db)"
    by code_simp
  have g: "generate_key rnd0 = key_trial"
    by code_simp
  have p: "not_positive_int ''0''" "not_positive_int ''abc''" "not_positive_int ''-4''"
    by code_simp+
  have q: "not_positive_int (case Some ''0'' of None \<Rightarrow> [] | Some t \<Rightarrow> t)"
      "coerce_max_activations (clean (case Some ''-4'' of None \<Rightarrow> Some ''1'' | Some m \<Rightarrow> Some m)) < 2 ^ 63"
      "not_positive_int (clean (case Some ''-4'' of None \<Rightarrow> Some ''1'' | Some m \<Rightarrow> Some m))"
      "\<not> create_overflow (Some ''0'') (Some ''-4'') 1000"
      "wf_db init_db" "clean (Some ''m1'') \<noteq> []"
    by code_simp+
  have n: "lic_notes (last (licenses db_trial)) = Some ''trial''"
    by code_simp
  note a = create_coercions [OF h, where s = "''0''", THEN conjunct1, rule_format, OF p(1)]
  note b = create_coercions [OF h, where s = "''abc''", THEN conjunct1, rule_format, OF p(2)]
  note c = create_coercions [OF h, where s = "''-4''", THEN conjunct1, rule_format, OF p(3)]
  note t = create_coercions [OF h, where days_field = "Some ''0''" and max_field = "Some ''-4''"
      and notes_field = "Some ''trial''" and ?t0.0 = 1000 and machine_field = "Some ''m1''"
      and f = no_parse and now = 999999999999,
      THEN conjunct2, THEN conjunct2, unfolded Let_def create_trial g]
  have e: "expires_at (last (licenses db_trial)) = None"
    using t q(1,2) by simp
  have m: "max_activations (last (licenses db_trial)) = 1"
    using t q(3,4) by simp
  have v: "fst (api_validate no_parse db_trial (Some key_trial) (Some ''m1'') 999999999999) =
     Inr (Success key_trial None 0 (Some ''trial''))"
    using t q(1,2,5,6) m n by simp
  from create_trial a b c e m v show ?thesis
    by blast
qed

subsection \<open>The operations keep the schema constraints\<close>

lemma wf_init_db: "wf_db init_db"
  by (simp add: wf_db_def init_db_def)

lemma wf_touch:
  assumes "wf_db d"
  shows "wf_db (touch_activation d aid now)"
proof -
  let ?g = "\<lambda>a. if act_id a = aid then a\<lparr>last_seen := now\<rparr> else a"
  have 1: "act_id \<circ> ?g = act_id"
    and 2: "(\<lambda>a. (license_id a, machine_id a)) \<circ> ?g = (\<lambda>a. (license_id a, machine_id a))"
    by (auto simp add: fun_eq_iff)
  show ?thesis
    using assms by (auto simp add: wf_db_def touch_activation_def list_all_iff 1 2)
qed

lemma wf_record:
  assumes "wf_db d" and "record_activation d lid mid now = Inr d'" and "lid \<le> lic_seq d"
  shows "wf_db d'"
proof -
  have n: "\<not> list_ex (\<lambda>a. license_id a = lid \<and> machine_id a = mid) (activations d)"
    and d': "d' = d\<lparr>activations := activations d @
                     [\<lparr>act_id = act_seq d + 1, license_id = lid, machine_id = mid,
                       activated_at = now, last_seen = now\<rparr>],
                   act_seq := act_seq d + 1\<rparr>"
    using assms(2) by (auto simp add: record_activation_def split: if_splits)
  have i: "act_seq d + 1 \<notin> act_id ` set (activations d)"
    using assms(1) by (auto simp add: wf_db_def list_all_iff)
  have p: "(lid, mid) \<notin> (\<lambda>a. (license_id a, machine_id a)) ` set (activations d)"
    using n by (auto simp add: list_ex_iff)
  show ?thesis
    using assms(1,3) i p by (auto simp add: wf_db_def d' list_all_iff)
qed

lemma wf_validate:
  assumes "wf_db d"
  shows "wf_db (snd (api_validate f d key_field machine_field now))"
proof -
  have b: "wf_db (snd (bind_machine (\<lambda>x. x) d lic k mid now))" if l: "lic \<in> set (licenses d)" for lic k mid
  proof (cases "get_activation d (lic_id lic) mid")
    case None
    have i: "lic_id lic \<le> lic_seq d"
      using assms l by (simp add: wf_db_def list_all_iff)
    note r = record_activation_fresh [OF None, of now]
    show ?thesis
      using wf_record [OF assms r i] assms by (simp add: bind_machine_new [OF None])
  next
    case (Some a)
    then show ?thesis
      using assms by (simp add: bind_machine_existing wf_touch)
  qed
  show ?thesis
    using assms b get_by_key_Some
    by (auto simp add: api_validate_def api_validate_env_def Let_def
        split: option.splits sum.splits bool.splits)
qed

lemma wf_create:
  assumes "wf_db d"
  shows "wf_db (snd (api_create_key logged_in rnd d days_field max_field notes_field now))"
proof -
  have "wf_db (d\<lparr>licenses := licenses d @ [l], lic_seq := lic_seq d + 1\<rparr>)"
    if "lic_id l = lic_seq d + 1" and "\<not> list_ex (\<lambda>x. lic_key x = lic_key l) (licenses d)" for l
  proof -
    have "lic_seq d + 1 \<notin> lic_id ` set (licenses d)"
      using assms by (auto simp add: wf_db_def list_all_iff)
    moreover have "lic_key l \<notin> lic_key ` set (licenses d)"
      using that(2) by (auto simp add: list_ex_iff)
    ultimately show ?thesis
      using assms that(1) by (auto simp add: wf_db_def list_all_iff)
  qed
  then show ?thesis
    using assms by (simp add: api_create_key_def Let_def split: option.splits)
qed

lemma within_limits_create:
  assumes "wf_db d" and "within_limits d"
  shows "within_limits (snd (api_create_key logged_in rnd d days_field max_field notes_field now))"
proof -
  have "within_limits (d\<lparr>licenses := licenses d @ [l], lic_seq := lic_seq d + 1\<rparr>)"
    if "lic_id l = lic_seq d + 1" and "1 \<le> max_activations l" for l
  proof -
    have "list_all (\<lambda>a. license_id a \<le> lic_seq d) (activations d)"
      using assms(1) by (auto simp add: wf_db_def list_all_iff)
    then have "count_activations d (lic_seq d + 1) = 0"
      by (simp add: count_activations_def count_fresh)
    then show ?thesis
      using assms(2) that by (simp add: within_limits_def count_activations_def)
  qed
  then show ?thesis
    using assms(2) coerce_max_activations_ge
    by (simp add: api_create_key_def Let_def split: option.splits)
qed

section \<open>Machine ids are compared as they are\<close>

lemma of_char_upper_char:
  "(of_char (upper_char c) :: nat) =
     (if 97 \<le> (of_char c :: nat) \<and> (of_char c :: nat) \<le> 122 then of_char c - 32 else of_char c)"
  by (auto simp add: upper_char_def Let_def)

lemma same_upper_fixed:
  assumes "same_upper c d" and "isspace c \<or> c = CHR 0x22 \<or> c = CHR 0x27"
  shows "d = c"
proof -
  have "(of_char (upper_char c) :: nat) = of_char (upper_char d)"
    using assms(1) by (simp add: same_upper_def)
  moreover have "(of_char c :: nat) \<le> 39"
    using assms(2) by (auto simp add: isspace_def Let_def)
  ultimately have "(of_char d :: nat) = of_char c"
    by (auto simp add: of_char_upper_char split: if_splits)
  then show ?thesis
    by simp
qed

lemma same_upper_sym: "same_upper c d \<Longrightarrow> same_upper d c"
  by (simp add: same_upper_def)

lemma same_upper_isspace: "same_upper c d \<Longrightarrow> isspace c = isspace d"
  using same_upper_fixed same_upper_sym by blast

lemma same_upper_quote:
  assumes "same_upper c d" and "q = CHR 0x22 \<or> q = CHR 0x27"
  shows "(c = q) = (d = q)"
  using assms same_upper_fixed same_upper_sym by blast

lemma upper_eq_iff: "upper s = upper t \<longleftrightarrow> list_all2 same_upper s t"
  by (auto simp add: upper_def same_upper_def list_all2_conv_all_nth list_eq_iff_nth_eq)

lemma dropWhile_same_upper:
  assumes "list_all2 same_upper xs ys"
  shows "list_all2 same_upper (dropWhile isspace xs) (dropWhile isspace ys) \<and>
         (dropWhile isspace xs = dropWhile isspace ys \<longrightarrow> xs = ys)"
  using assms
proof (induction rule: list_all2_induct)
  case Nil
  then show ?case by simp
next
  case (Cons x xs y ys)
  show ?case
  proof (cases "isspace x")
    case True
    then have "y = x"
      using same_upper_fixed [OF Cons.hyps(1)] by simp
    with True Cons.IH show ?thesis by simp
  next
    case False
    then have "\<not> isspace y"
      using same_upper_isspace [OF Cons.hyps(1)] by simp
    with False Cons.hyps show ?thesis by simp
  qed
qed

lemma strip_same_upper:
  assumes "list_all2 same_upper xs ys"
  shows "list_all2 same_upper (strip xs) (strip ys) \<and> (strip xs = strip ys \<longrightarrow> xs = ys)"
proof -
  note a = dropWhile_same_upper [OF assms]
  have r: "list_all2 same_upper (rev (dropWhile isspace xs)) (rev (dropWhile isspace ys))"
    using a by simp
  note b = dropWhile_same_upper [OF r]
  show ?thesis
    using a b by (simp add: strip_def)
qed

lemma quoted_same_upper:
  assumes "list_all2 same_upper xs ys" and "q = CHR 0x22 \<or> q = CHR 0x27"
  shows "quoted q xs = quoted q ys"
proof (cases xs)
  case Nil
  with assms(1) show ?thesis by simp
next
  case (Cons x xs')
  then obtain y ys' where ys: "ys = y # ys'"
    using assms(1) by (cases ys) auto
  have n: "xs \<noteq> []" "ys \<noteq> []" "length xs = length ys"
    using Cons ys assms(1) by (auto dest: list_all2_lengthD)
  have h: "same_upper x y"
    using assms(1) Cons ys by simp
  have "same_upper (xs ! (length xs - 1)) (ys ! (length xs - 1))"
    using assms(1) n by (simp add: list_all2_conv_all_nth)
  then have l: "same_upper (last xs) (last ys)"
    using n by (simp add: last_conv_nth)
  show ?thesis
    using same_upper_quote [OF h assms(2)] same_upper_quote [OF l assms(2)]
    by (simp add: quoted_def Cons ys del: last.simps)
qed

lemma inner_same_upper:
  assumes "list_all2 same_upper xs ys" and "quoted q xs" and "quoted q ys"
  shows "list_all2 same_upper (butlast (tl xs)) (butlast (tl ys)) \<and>
         (butlast (tl xs) = butlast (tl ys) \<longrightarrow> xs = ys)"
proof -
  obtain x xs' where xs: "xs = x # xs'" and x: "x = q" and lx: "last xs = q"
    using assms(2) by (auto simp add: quoted_def split: list.splits)
  obtain y ys' where ys: "ys = y # ys'" and y: "y = q" and ly: "last ys = q"
    using assms(3) by (auto simp add: quoted_def split: list.splits)
  have t: "list_all2 same_upper xs' ys'"
    using assms(1) xs ys by simp
  then have len: "length xs' = length ys'"
    by (rule list_all2_lengthD)
  have b: "list_all2 same_upper (butlast xs') (butlast ys')"
    using t by (auto simp add: list_all2_conv_all_nth nth_butlast)
  have e: "xs' = ys'" if "butlast xs' = butlast ys'"
  proof (cases "xs' = []")
    case True
    with len show ?thesis by simp
  next
    case False
    then have ny: "ys' \<noteq> []"
      using len by auto
    have "last xs' = q" "last ys' = q"
      using lx ly xs ys False ny by simp_all
    then have "xs' = butlast xs' @ [q]" "ys' = butlast ys' @ [q]"
      using False ny append_butlast_last_id by metis+
    with that show ?thesis by simp
  qed
  show ?thesis
    using b e by (simp add: xs ys x y)
qed

lemma clean_same_upper:
  assumes "list_all2 same_upper s t"
  shows "list_all2 same_upper (clean (Some s)) (clean (Some t)) \<and>
         (clean (Some s) = clean (Some t) \<longrightarrow> s = t)"
proof -
  note a = strip_same_upper [OF assms]
  have a1: "list_all2 same_upper (strip s) (strip t)"
    using a by simp
  have q1: "quoted (CHR 0x22) (strip s) = quoted (CHR 0x22) (strip t)"
    and q2: "quoted (CHR 0x27) (strip s) = quoted (CHR 0x27) (strip t)"
    using quoted_same_upper [OF a1] by simp_all
  show ?thesis
  proof (cases "quoted (CHR 0x22) (strip s)")
    case True
    note i = inner_same_upper [OF a1 True True [unfolded q1]]
    then have "list_all2 same_upper (butlast (tl (strip s))) (butlast (tl (strip t)))"
      by simp
    note j = strip_same_upper [OF this]
    show ?thesis
      using a i j True q1 by (simp add: clean_def)
  next
    case d: False
    show ?thesis
    proof (cases "quoted (CHR 0x27) (strip s)")
      case True
      note i = inner_same_upper [OF a1 True True [unfolded q2]]
      then have "list_all2 same_upper (butlast (tl (strip s))) (butlast (tl (strip t)))"
        by simp
      note j = strip_same_upper [OF this]
      show ?thesis
        using a i j True q2 by (simp add: clean_def)
    next
      case False
      show ?thesis
        using a d False q1 q2 by (simp add: clean_def)
    qed
  qed
qed

lemma clean_keeps_case_difference:
  assumes "upper s = upper t" and "s \<noteq> t"
  shows "clean (Some s) \<noteq> clean (Some t)"
    and "upper (clean (Some s)) = upper (clean (Some t))"
  using clean_same_upper [of s t] assms by (auto simp add: upper_eq_iff)

lemma validate_new:
  assumes "upper (clean key_field) \<noteq> []" and "clean machine_field \<noteq> []"
    and "get_by_key d (upper (clean key_field)) = Inr (Some lic)" and "revoked lic = 0"
    and "check_expiry f lic now = Inr False"
    and "get_activation d (lic_id lic) (clean machine_field) = None"
    and "count_activations d (lic_id lic) < max_activations lic"
  shows "api_validate f d key_field machine_field now =
     (Inr (Success (upper (clean key_field)) (expires_at lic)
             (max_activations lic - count_activations d (lic_id lic) - 1) (lic_notes lic)),
      d\<lparr>activations := activations d @
            [\<lparr>act_id = act_seq d + 1, license_id = lic_id lic, machine_id = clean machine_field,
              activated_at = now, last_seen = now\<rparr>],
        act_seq := act_seq d + 1\<rparr>)"
  using assms(3-7)
  by (simp add: api_validate_def validate_present [OF assms(1,2)] bind_machine_new)

text \<open>
  Claim C10. Let two machine ids differ, but only in letter case, and let the license have
  neither bound and room for two more activations. Validating with the first and then the
  second gives two \<open>Success\<close> verdicts with the remaining count going down by one each
  time, and the activations grow by two rows, one per spelling: the cleaned ids still
  differ, and they are stored and compared as they are.
\<close>

theorem machine_id_case_sensitive:
  assumes "upper (clean key_field) \<noteq> []"
    and "get_by_key d (upper (clean key_field)) = Inr (Some lic)" and "revoked lic = 0"
    and "check_expiry f lic t1 = Inr False" and "check_expiry f lic t2 = Inr False"
    and "upper m1 = upper m2" and "m1 \<noteq> m2" and "clean (Some m1) \<noteq> []"
    and "get_activation d (lic_id lic) (clean (Some m1)) = None"
    and "get_activation d (lic_id lic) (clean (Some m2)) = None"
    and "count_activations d (lic_id lic) + 2 \<le> max_activations lic"
  shows "(let r1 = api_validate f d key_field (Some m1) t1;
              r2 = api_validate f (snd r1) key_field (Some m2) t2
          in clean (Some m1) \<noteq> clean (Some m2) \<and>
             fst r1 = Inr (Success (upper (clean key_field)) (expires_at lic)
                             (max_activations lic - count_activations d (lic_id lic) - 1)
                             (lic_notes lic)) \<and>
             fst r2 = Inr (Success (upper (clean key_field)) (expires_at lic)
                             (max_activations lic - count_activations d (lic_id lic) - 2)
                             (lic_notes lic)) \<and>
             activations (snd r2) = activations d @
               [\<lparr>act_id = act_seq d + 1, license_id = lic_id lic, machine_id = clean (Some m1),
                 activated_at = t1, last_seen = t1\<rparr>,
                \<lparr>act_id = act_seq d + 2, license_id = lic_id lic, machine_id = clean (Some m2),
                 activated_at = t2, last_seen = t2\<rparr>] \<and>
             count_activations (snd r2) (lic_id lic) = count_activations d (lic_id lic) + 2)"
proof -
  let ?k = "upper (clean key_field)"
  let ?a1 = "\<lparr>act_id = act_seq d + 1, license_id = lic_id lic, machine_id = clean (Some m1),
              activated_at = t1, last_seen = t1\<rparr>"
  let ?d1 = "d\<lparr>activations := activations d @ [?a1], act_seq := act_seq d + 1\<rparr>"
  note ne = clean_keeps_case_difference [OF assms(6,7)]
  have m2: "clean (Some m2) \<noteq> []"
    using ne(2) assms(8) by (metis upper_Nil_iff)
  have c0: "count_activations d (lic_id lic) < max_activations lic"
    using assms(11) by simp
  have v1: "api_validate f d key_field (Some m1) t1 =
     (Inr (Success ?k (expires_at lic)
             (max_activations lic - count_activations d (lic_id lic) - 1) (lic_notes lic)), ?d1)"
    by (rule validate_new [OF assms(1,8,2,3,4,9) c0])
  have g1: "get_by_key ?d1 ?k = Inr (Some lic)"
    using assms(2) by (simp add: get_by_key_def)
  have a1: "get_activation ?d1 (lic_id lic) (clean (Some m2)) = None"
    using assms(10) ne(1) by (auto simp add: get_activation_def find_None_iff)
  have c1: "count_activations ?d1 (lic_id lic) = count_activations d (lic_id lic) + 1"
    by (simp add: count_activations_def)
  have c1': "count_activations ?d1 (lic_id lic) < max_activations lic"
    using assms(11) c1 by simp
  note v2 = validate_new [OF assms(1) m2 g1 assms(3,5) a1 c1']
  show ?thesis
    using ne(1) by (simp add: Let_def v1 v2 c1 count_activations_def)
qed

theorem machine_id_case_sensitive_witness:
  "fst (api_validate no_parse db_pair (Some key_a) (Some ''M1'') 2000) =
     Inr (Success key_a None 1 (Some [])) \<and>
   fst (api_validate no_parse (snd (api_validate no_parse db_pair (Some key_a) (Some ''M1'') 2000))
          (Some key_a) (Some ''m1'') 3000) =
     Inr (Success key_a None 0 (Some [])) \<and>
   activations (snd (api_validate no_parse
       (snd (api_validate no_parse db_pair (Some key_a) (Some ''M1'') 2000))
       (Some key_a) (Some ''m1'') 3000)) =
     [\<lparr>act_id = 1, license_id = 1, machine_id = ''M1'', activated_at = 2000, last_seen = 2000\<rparr>,
      \<lparr>act_id = 2, license_id = 1, machine_id = ''m1'', activated_at = 3000, last_seen = 3000\<rparr>]"
proof -
  let ?lic = "lic_a\<lparr>max_activations := 2\<rparr>"
  have p: "upper (clean (Some key_a)) \<noteq> []"
      "get_by_key db_pair (upper (clean (Some key_a))) = Inr (Some ?lic)" "revoked ?lic = 0"
      "check_expiry no_parse ?lic 2000 = Inr False" "check_expiry no_parse ?lic 3000 = Inr False"
      "upper ''M1'' = upper ''m1''" "''M1'' \<noteq> ''m1''" "clean (Some ''M1'') \<noteq> []"
      "get_activation db_pair (lic_id ?lic) (clean (Some ''M1'')) = None"
      "get_activation db_pair (lic_id ?lic) (clean (Some ''m1'')) = None"
      "count_activations db_pair (lic_id ?lic) + 2 \<le> max_activations ?lic"
    by code_simp+
  have q: "upper (clean (Some key_a)) = key_a" "clean (Some ''M1'') = ''M1''"
      "clean (Some ''m1'') = ''m1''" "count_activations db_pair (lic_id ?lic) = 0"
      "activations db_pair = []" "act_seq db_pair = 0" "lic_id ?lic = 1"
      "expires_at ?lic = None" "lic_notes ?lic = Some []" "max_activations ?lic = 2"
    by code_simp+
  note t = machine_id_case_sensitive [where f = no_parse and d = db_pair
      and key_field = "Some key_a" and lic = ?lic and ?t1.0 = 2000 and ?t2.0 = 3000
      and ?m1.0 = "''M1''" and ?m2.0 = "''m1''", OF p, unfolded Let_def q]
  have c: "count_activations db_pair 1 = 0"
    by code_simp
  from t show ?thesis
    by (simp add: c)
qed

end
